theory Spec2Isabelle
  imports Complex_Main
begin

section \<open>The door alarm controller: data\<close>

text \<open>
  The repository holds the controller twice: \<^verbatim>\<open>app.py\<close> and
  \<^verbatim>\<open>app_with_html_errors.py\<close>. Both poll a reed sensor (\<^verbatim>\<open>monitor_door\<close>), run a
  countdown per opening (\<^verbatim>\<open>alarm_timer\<close>), write events to a table and broadcast them
  (\<^verbatim>\<open>log_event\<close>) and mail an alert (\<^verbatim>\<open>send_alarm_email\<close>). Only
  \<^verbatim>\<open>app_with_html_errors.py\<close> has the duplicate prevention in front of the event log.

  Module globals, the rows of the database that the four functions touch, the two LEDs and
  the messages that leave the process are the fields of one state record. Readings of
  \<^verbatim>\<open>time.time()\<close> are real numbers (seconds); the rounding of Python's floats is not
  modelled. The database is taken to be reliable: a commit appends a row.
\<close>

type_synonym time = real

text \<open>A row of \<^verbatim>\<open>EventLog\<close> (models.py).\<close>

record event =
  ev_id :: nat
  ev_type :: string
  ev_description :: string
  ev_timestamp :: time

text \<open>The \<^verbatim>\<open>statistics\<close> entry of the broadcast payload.\<close>

record statistics =
  total_events :: nat
  door_open_events :: nat
  door_close_events :: nat
  alarm_events :: nat

text \<open>
  The payload of \<^verbatim>\<open>socketio.emit('new_event', payload, namespace='/events')\<close>. The source
  also sends \<^verbatim>\<open>last_event\<close>, the row with the latest timestamp as the store orders it;
  that field is left out here.
\<close>

record payload =
  p_event :: event
  door_status :: string
  alarm_status :: string
  timer_set :: string
  p_statistics :: statistics

text \<open>The row of \<^verbatim>\<open>EmailConfig\<close> (models.py).\<close>

record email_config =
  sender_email :: string
  app_password :: string
  recipient_emails :: string
  is_configured :: bool

text \<open>A message handed to \<^verbatim>\<open>server.sendmail\<close>: sender, recipients, and the duration it reports.\<close>

record mail =
  mail_from :: string
  mail_to :: "string list"
  mail_duration :: int

text \<open>
  What the SMTP server does in one call of \<^verbatim>\<open>send_alarm_email\<close>: every stage succeeds
  (\<open>None\<close>), or one stage raises an exception of one of the three classes that the
  function tells apart.
\<close>

datatype smtp_stage = Connect | StartTLS | Login | SendMail | Quit

datatype smtp_error = SMTPAuthenticationError | SMTPException | OtherException

type_synonym transport = "(smtp_stage \<times> smtp_error) option"

record sys =
  testing :: bool
  door_open :: bool
  alarm_active :: bool
  timer_active :: bool
  timer_duration :: int
  red_led :: bool
  white_led :: bool
  last_logged_door_state :: "bool option"
  last_logged_alarm_state :: bool
  last_event_timestamps :: "string \<rightharpoonup> time"
  timer_setting :: "string option"
  email_row :: "email_config option"
  smtp :: transport
  event_log :: "event list"
  emitted :: "payload list"
  outbox :: "mail list"

text \<open>
  \<open>testing\<close> is \<^verbatim>\<open>os.environ.get('TESTING')\<close>; \<open>red_led\<close> and \<open>white_led\<close> are the
  outputs 13 and 16; \<open>timer_setting\<close> is the value of the \<^verbatim>\<open>Setting\<close> row with key
  \<^verbatim>\<open>timer_duration\<close> (\<open>None\<close>: no such row); \<open>email_row\<close> is
  \<^verbatim>\<open>EmailConfig.query.first()\<close>; \<open>smtp\<close> is the behaviour of the mail server;
  \<open>event_log\<close> is the table \<^verbatim>\<open>EventLog\<close> in insertion order; \<open>emitted\<close> are the
  payloads broadcast so far and \<open>outbox\<close> the mails accepted by the server.
\<close>

section \<open>The event pipeline\<close>

text \<open>The key of a new row: one more than the largest key in the table.\<close>

definition next_id :: "event list \<Rightarrow> nat" where
  "next_id evs = Suc (fold max (map ev_id evs) 0)"

text \<open>The four \<^verbatim>\<open>count()\<close> queries of \<^verbatim>\<open>log_event\<close>.\<close>

definition count_type :: "string \<Rightarrow> event list \<Rightarrow> nat" where
  "count_type ty evs = length (filter (\<lambda>e. ev_type e = ty) evs)"

definition get_statistics :: "event list \<Rightarrow> statistics" where
  "get_statistics evs =
     \<lparr>total_events = length evs,
      door_open_events = count_type ''door_open'' evs,
      door_close_events = count_type ''door_close'' evs,
      alarm_events = count_type ''alarm_triggered'' evs\<rparr>"

text \<open>
  \<^verbatim>\<open>log_event\<close> of \<^verbatim>\<open>app.py\<close>, and the second half of \<^verbatim>\<open>log_event\<close> of
  \<^verbatim>\<open>app_with_html_errors.py\<close> (the block under \<^verbatim>\<open>with app.app_context()\<close>): insert the
  row, count, read the timer setting, build the payload, emit it.
\<close>

definition log_event_app :: "time \<Rightarrow> string \<Rightarrow> string \<Rightarrow> sys \<Rightarrow> sys" where
  "log_event_app now event_type description s =
     (let event = \<lparr>ev_id = next_id (event_log s), ev_type = event_type,
                   ev_description = description, ev_timestamp = now\<rparr>;
          evs = event_log s @ [event];
          pl = \<lparr>p_event = event,
                door_status = (if door_open s then ''Open'' else ''Closed''),
                alarm_status = (if alarm_active s then ''Active'' else ''Inactive''),
                timer_set = (case timer_setting s of Some v \<Rightarrow> v | None \<Rightarrow> ''30''),
                p_statistics = get_statistics evs\<rparr>
      in s\<lparr>event_log := evs, emitted := emitted s @ [pl]\<rparr>)"

definition event_key :: "string \<Rightarrow> string \<Rightarrow> string" where
  "event_key event_type description = event_type @ ''_'' @ description"

text \<open>
  The block under \<^verbatim>\<open>with event_lock\<close> in \<^verbatim>\<open>app_with_html_errors.py\<close>. \<open>None\<close> is
  one of its four \<^verbatim>\<open>return\<close> statements (the submission is dropped); \<open>Some\<close> carries the
  state with the flag of the event's type and the timestamp of its key written.
\<close>

definition duplicate_prevention :: "time \<Rightarrow> string \<Rightarrow> string \<Rightarrow> sys \<Rightarrow> sys option" where
  "duplicate_prevention current_time event_type description s =
     (let key = event_key event_type description;
          stamp = (\<lambda>s'. s'\<lparr>last_event_timestamps := (last_event_timestamps s')(key \<mapsto> current_time)\<rparr>)
      in if (case last_event_timestamps s key of
               Some t0 \<Rightarrow> current_time - t0 < 2
             | None \<Rightarrow> False) then None
         else if event_type = ''door_open'' then
           (if last_logged_door_state s = Some True then None
            else Some (stamp (s\<lparr>last_logged_door_state := Some True\<rparr>)))
         else if event_type = ''door_close'' then
           (if last_logged_door_state s = Some False then None
            else Some (stamp (s\<lparr>last_logged_door_state := Some False\<rparr>)))
         else if event_type = ''alarm_triggered'' then
           (if last_logged_alarm_state s then None
            else Some (stamp (s\<lparr>last_logged_alarm_state := True\<rparr>)))
         else Some (stamp s))"

text \<open>\<^verbatim>\<open>log_event\<close> of \<^verbatim>\<open>app_with_html_errors.py\<close>.\<close>

definition log_event :: "time \<Rightarrow> string \<Rightarrow> string \<Rightarrow> sys \<Rightarrow> sys" where
  "log_event now event_type description s =
     (case duplicate_prevention now event_type description s of
        None \<Rightarrow> s
      | Some s' \<Rightarrow> log_event_app now event_type description s')"

text \<open>A submission: the clock reading, the type and the description.\<close>

type_synonym submission = "time \<times> string \<times> string"

fun log_events :: "submission list \<Rightarrow> sys \<Rightarrow> sys" where
  "log_events [] s = s"
| "log_events ((t, ty, d) # rest) s = log_events rest (log_event t ty d s)"

fun log_events_app :: "submission list \<Rightarrow> sys \<Rightarrow> sys" where
  "log_events_app [] s = s"
| "log_events_app ((t, ty, d) # rest) s = log_events_app rest (log_event_app t ty d s)"

text \<open>The state of a freshly started process with an empty database (the module's initial globals).\<close>

definition initial :: sys where
  "initial =
     \<lparr>testing = False, door_open = False, alarm_active = False, timer_active = False,
      timer_duration = 30, red_led = False, white_led = False,
      last_logged_door_state = None, last_logged_alarm_state = False,
      last_event_timestamps = Map.empty, timer_setting = Some ''30'', email_row = None,
      smtp = None, event_log = [], emitted = [], outbox = []\<rparr>"

section \<open>Strings\<close>

text \<open>\<^verbatim>\<open>str(n)\<close> for an integer, as the f-strings of the source print it.\<close>

definition digit_char :: "nat \<Rightarrow> char" where
  "digit_char n = ''0123456789'' ! n"

fun str_nat :: "nat \<Rightarrow> string" where
  "str_nat n = (if n < 10 then [digit_char n] else str_nat (n div 10) @ [digit_char (n mod 10)])"

declare str_nat.simps [simp del]

definition str_int :: "int \<Rightarrow> string" where
  "str_int i = (if i < 0 then CHR ''-'' # str_nat (nat (- i)) else str_nat (nat i))"

text \<open>
  \<^verbatim>\<open>s.split(c)\<close> and \<^verbatim>\<open>s.strip()\<close> on ASCII text. The white space of Python is the
  characters 9 to 13, 28 to 32.
\<close>

fun split_on :: "char \<Rightarrow> string \<Rightarrow> string list" where
  "split_on c [] = [[]]"
| "split_on c (x # xs) =
     (if x = c then [] # split_on c xs
      else (case split_on c xs of
              g # gs \<Rightarrow> (x # g) # gs
            | [] \<Rightarrow> [[x]]))"

definition is_space :: "char \<Rightarrow> bool" where
  "is_space c = (let n = (of_char c :: nat) in (9 \<le> n \<and> n \<le> 13) \<or> (28 \<le> n \<and> n \<le> 32))"

definition strip :: "string \<Rightarrow> string" where
  "strip w = rev (dropWhile is_space (rev (dropWhile is_space w)))"

text \<open>
  \<^verbatim>\<open>int(v)\<close> for a string \<open>v\<close> of ASCII text; \<open>None\<close> is \<^verbatim>\<open>ValueError\<close>. Python accepts
  white space around the number, one sign, and single underscores between digits.
\<close>

definition is_digit :: "char \<Rightarrow> bool" where
  "is_digit c = (let n = (of_char c :: nat) in 48 \<le> n \<and> n \<le> 57)"

definition digits_value :: "string \<Rightarrow> nat" where
  "digits_value ds = foldl (\<lambda>acc c. 10 * acc + (of_char c - 48)) 0 ds"

definition int_of_str :: "string \<Rightarrow> int option" where
  "int_of_str v =
     (let w = strip v;
          negative = (w \<noteq> [] \<and> hd w = CHR ''-'');
          body = (if w \<noteq> [] \<and> (hd w = CHR ''-'' \<or> hd w = CHR ''+'') then tl w else w);
          groups = split_on CHR ''_'' body
      in if list_all (\<lambda>g. g \<noteq> [] \<and> list_all is_digit g) groups
         then Some ((if negative then - 1 else 1) * int (digits_value (concat groups)))
         else None)"

section \<open>The notification dispatcher\<close>

text \<open>
  Which way a call of \<^verbatim>\<open>send_alarm_email\<close> ended: one of the three early
  \<^verbatim>\<open>return\<close> statements, the end of the \<^verbatim>\<open>try\<close> block, or one of the three handlers.
  Each prints its own line.
\<close>

datatype report =
  NoConfiguration | NotConfigured | Incomplete | Sent
  | AuthenticationFailed | SmtpFailed | UnexpectedFailure

text \<open>
  The \<^verbatim>\<open>try\<close> block. The first component is \<open>Inl e\<close> when the block raises \<open>e\<close>. The
  message has left with \<^verbatim>\<open>server.sendmail\<close>, so a failure of \<^verbatim>\<open>server.quit()\<close>
  comes after the delivery.
\<close>

definition send_alarm_email_try :: "int \<Rightarrow> sys \<Rightarrow> (smtp_error + report) \<times> sys" where
  "send_alarm_email_try duration s =
     (case email_row s of
        None \<Rightarrow> (Inr NoConfiguration, s)
      | Some cfg \<Rightarrow>
          if \<not> is_configured cfg then (Inr NotConfigured, s)
          else if sender_email cfg = [] \<or> app_password cfg = [] \<or> recipient_emails cfg = []
          then (Inr Incomplete, s)
          else
            (let recipients = map strip (split_on CHR '','' (recipient_emails cfg));
                 msg = \<lparr>mail_from = sender_email cfg, mail_to = recipients, mail_duration = duration\<rparr>
             in case smtp s of
                  None \<Rightarrow> (Inr Sent, s\<lparr>outbox := outbox s @ [msg]\<rparr>)
                | Some (stage, e) \<Rightarrow>
                    if stage = Quit then (Inl e, s\<lparr>outbox := outbox s @ [msg]\<rparr>)
                    else (Inl e, s)))"

text \<open>The three \<^verbatim>\<open>except\<close> clauses, in the order of the source.\<close>

definition send_alarm_email :: "int \<Rightarrow> sys \<Rightarrow> (smtp_error + report) \<times> sys" where
  "send_alarm_email duration s =
     (case send_alarm_email_try duration s of
        (Inl SMTPAuthenticationError, s') \<Rightarrow> (Inr AuthenticationFailed, s')
      | (Inl SMTPException, s') \<Rightarrow> (Inr SmtpFailed, s')
      | (Inl OtherException, s') \<Rightarrow> (Inr UnexpectedFailure, s')
      | (Inr r, s') \<Rightarrow> (Inr r, s'))"

section \<open>The door monitor and the alarm timer\<close>

datatype variant = App | AppWithHtmlErrors

text \<open>The \<^verbatim>\<open>log_event\<close> that the functions of a file call.\<close>

definition submit :: "variant \<Rightarrow> time \<Rightarrow> string \<Rightarrow> string \<Rightarrow> sys \<Rightarrow> sys" where
  "submit v = (case v of App \<Rightarrow> log_event_app | AppWithHtmlErrors \<Rightarrow> log_event)"

text \<open>
  How one pass through the body of \<^verbatim>\<open>while True\<close> in \<^verbatim>\<open>monitor_door\<close> ends: it reaches the
  \<^verbatim>\<open>time.sleep\<close> at its end, it reaches \<^verbatim>\<open>timer_thread.join()\<close> with a duration for the new
  countdown, or an exception leaves the function (the body has no \<^verbatim>\<open>try\<close>). Two
  statements of the body are modelled as able to raise: \<^verbatim>\<open>GPIO.input(11)\<close> and
  \<^verbatim>\<open>int(timer_setting.value)\<close>. The writes to the LEDs and the calls of the database are
  taken to succeed.
\<close>

datatype exn = GPIOError | ValueError

datatype outcome = Continue | StartTimer int | Raise exn

text \<open>
  One pass. \<open>reading\<close> is the result of \<^verbatim>\<open>GPIO.input(11) == GPIO.HIGH\<close>, \<open>None\<close> when the
  read raises. Only \<^verbatim>\<open>app_with_html_errors.py\<close> resets \<^verbatim>\<open>last_logged_alarm_state\<close> when
  the door closes.
\<close>

definition monitor_door_iteration ::
  "variant \<Rightarrow> time \<Rightarrow> bool option \<Rightarrow> sys \<Rightarrow> outcome \<times> sys" where
  "monitor_door_iteration v now reading s =
     (if testing s then (Continue, s)
      else case reading of
        None \<Rightarrow> (Raise GPIOError, s)
      | Some door_is_open \<Rightarrow>
          if door_is_open \<and> \<not> door_open s then
            (let s1 = s\<lparr>door_open := True, alarm_active := False, timer_active := True,
                        white_led := False\<rparr>
             in case (case timer_setting s1 of Some val \<Rightarrow> int_of_str val | None \<Rightarrow> Some 30) of
                  None \<Rightarrow> (Raise ValueError, s1)
                | Some d \<Rightarrow>
                    (StartTimer d,
                     submit v now ''door_open'' ''Door opened'' (s1\<lparr>timer_duration := d\<rparr>)))
          else if \<not> door_is_open \<and> door_open s then
            (let s1 = s\<lparr>door_open := False, alarm_active := False, timer_active := False\<rparr>;
                 s2 = (case v of App \<Rightarrow> s1
                       | AppWithHtmlErrors \<Rightarrow> s1\<lparr>last_logged_alarm_state := False\<rparr>);
                 s3 = s2\<lparr>red_led := False, white_led := False\<rparr>
             in (Continue, submit v now ''door_close'' ''Door closed'' s3))
          else (Continue, s))"

text \<open>
  \<^verbatim>\<open>monitor_door\<close> on its own, over the readings of the sensor one after the other, the
  \<open>i\<close>-th at time \<open>fst\<close>: the loop has no exit, so after the last reading it is still
  running (\<open>None\<close>) unless a pass raised (\<open>Some e\<close>, and the readings after it are never
  taken). The countdowns that the loop starts are not run here.
\<close>

fun monitor_door :: "variant \<Rightarrow> (time \<times> bool option) list \<Rightarrow> sys \<Rightarrow> exn option \<times> sys" where
  "monitor_door v [] s = (None, s)"
| "monitor_door v ((now, reading) # rest) s =
     (case monitor_door_iteration v now reading s of
        (Raise e, s') \<Rightarrow> (Some e, s')
      | (_, s') \<Rightarrow> monitor_door v rest s')"

text \<open>
  The statement after the loop of \<^verbatim>\<open>alarm_timer\<close>: the re-check and its two branches. The
  first component is an exception that \<^verbatim>\<open>send_alarm_email\<close> lets through, if any.
\<close>

definition alarm_timer_final :: "variant \<Rightarrow> time \<Rightarrow> int \<Rightarrow> sys \<Rightarrow> smtp_error option \<times> sys" where
  "alarm_timer_final v now duration s =
     (if timer_active s \<and> door_open s then
        (let s1 = s\<lparr>timer_active := False, alarm_active := True\<rparr>;
             s2 = (if testing s1 then s1 else s1\<lparr>red_led := False, white_led := True\<rparr>);
             s3 = submit v now ''alarm_triggered''
                    (''Alarm triggered after '' @ str_int duration @ '' seconds'') s2
         in case send_alarm_email duration s3 of
              (Inl e, s4) \<Rightarrow> (Some e, s4)
            | (Inr r, s4) \<Rightarrow> (None, s4))
      else
        (let s1 = s\<lparr>timer_active := False, alarm_active := False\<rparr>
         in (None, if testing s1 then s1 else s1\<lparr>red_led := False, white_led := False\<rparr>)))"

section \<open>The monitor thread and the timer thread\<close>

text \<open>
  \<^verbatim>\<open>monitor_door\<close> runs in one thread and each \<^verbatim>\<open>alarm_timer\<close> in a thread of its own; they
  share the globals. A configuration holds the shared state, the clock, and where each of
  the two threads stands. A pass of the monitor is one step, and so is each statement of
  \<^verbatim>\<open>alarm_timer\<close>; a schedule lists which thread moves next and how time passes.

  The positions of the timer follow the source: the assignment of \<^verbatim>\<open>start_time\<close>, the
  \<^verbatim>\<open>while\<close> condition, the first check with its \<^verbatim>\<open>break\<close>, the first
  \<^verbatim>\<open>time.sleep(0.5)\<close> (with the time it ends), the second check, the second sleep, the
  statement after the loop, and the end of the thread. \<open>AtFinal\<close> remembers how the loop was
  left: \<open>Elapsed\<close> when the time comparison of the \<^verbatim>\<open>while\<close> condition failed, \<open>Early\<close> when
  \<^verbatim>\<open>timer_active\<close> or \<^verbatim>\<open>door_open\<close> was found false.
\<close>

datatype exit_kind = Elapsed | Early

datatype timer_pc =
  AtStart | AtWhile | AtCheck1 | Sleep1 time | AtCheck2 | Sleep2 time
  | AtFinal exit_kind | Finished

text \<open>
  The monitor sleeps until a time, waits in \<^verbatim>\<open>timer_thread.join()\<close> with the duration of the
  countdown to start, or has been left by an exception.
\<close>

datatype monitor_pc = Polling time | Joining int | Stopped exn

record timer_task =
  pc :: timer_pc
  start_time :: time
  duration :: int

record config =
  shared :: sys
  clock :: time
  monitor :: monitor_pc
  timer_thread :: "timer_task option"

definition is_alive :: "timer_task option \<Rightarrow> bool" where
  "is_alive th = (case th of None \<Rightarrow> False | Some t \<Rightarrow> pc t \<noteq> Finished)"

definition monitor_step :: "variant \<Rightarrow> bool option \<Rightarrow> config \<Rightarrow> config" where
  "monitor_step v reading c =
     (case monitor c of
        Stopped e \<Rightarrow> c
      | Joining d \<Rightarrow>
          if is_alive (timer_thread c) then c
          else c\<lparr>timer_thread := Some \<lparr>pc = AtStart, start_time = 0, duration = d\<rparr>,
                  monitor := Polling (clock c + 1 / 10)\<rparr>
      | Polling wake \<Rightarrow>
          if clock c < wake then c
          else (case monitor_door_iteration v (clock c) reading (shared c) of
                  (Raise e, s') \<Rightarrow> c\<lparr>shared := s', monitor := Stopped e\<rparr>
                | (StartTimer d, s') \<Rightarrow> c\<lparr>shared := s', monitor := Joining d\<rparr>
                | (Continue, s') \<Rightarrow>
                    c\<lparr>shared := s',
                      monitor := Polling (clock c + (if testing s' then 1 else 1 / 10))\<rparr>))"

definition goto :: "timer_task \<Rightarrow> timer_pc \<Rightarrow> config \<Rightarrow> config" where
  "goto th p c = c\<lparr>timer_thread := Some (th\<lparr>pc := p\<rparr>)\<rparr>"

definition timer_step :: "variant \<Rightarrow> config \<Rightarrow> config" where
  "timer_step v c =
     (case timer_thread c of
        None \<Rightarrow> c
      | Some th \<Rightarrow>
          (let s = shared c in
           case pc th of
             AtStart \<Rightarrow> goto (th\<lparr>start_time := clock c\<rparr>) AtWhile c
           | AtWhile \<Rightarrow>
               if \<not> timer_active s then goto th (AtFinal Early) c
               else if clock c - start_time th < of_int (duration th) then goto th AtCheck1 c
               else goto th (AtFinal Elapsed) c
           | AtCheck1 \<Rightarrow>
               if \<not> timer_active s \<or> \<not> door_open s then goto th (AtFinal Early) c
               else goto th (Sleep1 (clock c + 1 / 2))
                      (c\<lparr>shared := (if testing s then s else s\<lparr>red_led := True\<rparr>)\<rparr>)
           | Sleep1 wake \<Rightarrow> if clock c < wake then c else goto th AtCheck2 c
           | AtCheck2 \<Rightarrow>
               if \<not> timer_active s \<or> \<not> door_open s then goto th (AtFinal Early) c
               else goto th (Sleep2 (clock c + 1 / 2))
                      (c\<lparr>shared := (if testing s then s else s\<lparr>red_led := False\<rparr>)\<rparr>)
           | Sleep2 wake \<Rightarrow> if clock c < wake then c else goto th AtWhile c
           | AtFinal k \<Rightarrow>
               goto th Finished (c\<lparr>shared := snd (alarm_timer_final v (clock c) (duration th) s)\<rparr>)
           | Finished \<Rightarrow> c))"

text \<open>
  A step of a schedule: time passes (the clock does not run backwards), the monitor moves
  (with the reading its pass takes, if it takes one), or the timer moves. A thread that
  sleeps stays where it is until its time has come.
\<close>

datatype action = Tick real | Monitor "bool option" | Timer

definition exec :: "variant \<Rightarrow> action \<Rightarrow> config \<Rightarrow> config" where
  "exec v a c =
     (case a of
        Tick d \<Rightarrow> c\<lparr>clock := clock c + max 0 d\<rparr>
      | Monitor reading \<Rightarrow> monitor_step v reading c
      | Timer \<Rightarrow> timer_step v c)"

fun run :: "variant \<Rightarrow> action list \<Rightarrow> config \<Rightarrow> config" where
  "run v [] c = c"
| "run v (a # as) c = run v as (exec v a c)"

text \<open>The process after \<^verbatim>\<open>start_monitoring()\<close>, in state \<open>s\<close>.\<close>

definition boot :: "sys \<Rightarrow> config" where
  "boot s = \<lparr>shared = s, clock = 0, monitor = Polling 0, timer_thread = None\<rparr>"

section \<open>Threads inside the event pipeline\<close>

text \<open>
  \<^verbatim>\<open>log_event\<close> of \<^verbatim>\<open>app_with_html_errors.py\<close> is called from the monitor thread, the timer
  thread and the request handlers. Its first block runs under \<^verbatim>\<open>event_lock\<close>; the second
  block (\<^verbatim>\<open>with app.app_context()\<close>) starts after the lock is released. A caller stands
  before the lock, inside it (with the clock reading it took there), before the insert,
  before the queries (with the row it inserted), before the broadcast (with the payload it
  built), or has returned: dropped by the duplicate prevention, or done.
\<close>

datatype caller_pc =
  BeforeLock | InLock time | BeforeInsert time | BeforeCount event
  | BeforeEmit payload | Dropped | Done

record caller =
  c_pc :: caller_pc
  c_type :: string
  c_description :: string
  passed :: "time option"

text \<open>\<open>passed\<close> is the clock reading with which the caller got through the first block, if it did.\<close>

record pipeline =
  store :: sys
  lock_holder :: "nat option"
  callers :: "nat \<Rightarrow> caller"
  p_clock :: time

definition insert_row :: "time \<Rightarrow> string \<Rightarrow> string \<Rightarrow> sys \<Rightarrow> event \<times> sys" where
  "insert_row now event_type description s =
     (let event = \<lparr>ev_id = next_id (event_log s), ev_type = event_type,
                   ev_description = description, ev_timestamp = now\<rparr>
      in (event, s\<lparr>event_log := event_log s @ [event]\<rparr>))"

definition build_payload :: "event \<Rightarrow> sys \<Rightarrow> payload" where
  "build_payload event s =
     \<lparr>p_event = event,
      door_status = (if door_open s then ''Open'' else ''Closed''),
      alarm_status = (if alarm_active s then ''Active'' else ''Inactive''),
      timer_set = (case timer_setting s of Some val \<Rightarrow> val | None \<Rightarrow> ''30''),
      p_statistics = get_statistics (event_log s)\<rparr>"

definition caller_step :: "nat \<Rightarrow> pipeline \<Rightarrow> pipeline" where
  "caller_step i p =
     (let th = callers p i; put = (\<lambda>th' q. q\<lparr>callers := (callers q)(i := th')\<rparr>) in
      case c_pc th of
        BeforeLock \<Rightarrow>
          (case lock_holder p of
             Some j \<Rightarrow> p
           | None \<Rightarrow> put (th\<lparr>c_pc := InLock (p_clock p)\<rparr>) (p\<lparr>lock_holder := Some i\<rparr>))
      | InLock t \<Rightarrow>
          (case duplicate_prevention t (c_type th) (c_description th) (store p) of
             None \<Rightarrow> put (th\<lparr>c_pc := Dropped\<rparr>) (p\<lparr>lock_holder := None\<rparr>)
           | Some s' \<Rightarrow>
               put (th\<lparr>c_pc := BeforeInsert t, passed := Some t\<rparr>)
                 (p\<lparr>lock_holder := None, store := s'\<rparr>))
      | BeforeInsert t \<Rightarrow>
          (case insert_row (p_clock p) (c_type th) (c_description th) (store p) of
             (event, s') \<Rightarrow> put (th\<lparr>c_pc := BeforeCount event\<rparr>) (p\<lparr>store := s'\<rparr>))
      | BeforeCount event \<Rightarrow> put (th\<lparr>c_pc := BeforeEmit (build_payload event (store p))\<rparr>) p
      | BeforeEmit pl \<Rightarrow>
          put (th\<lparr>c_pc := Done\<rparr>) (p\<lparr>store := (store p)\<lparr>emitted := emitted (store p) @ [pl]\<rparr>\<rparr>)
      | Dropped \<Rightarrow> p
      | Done \<Rightarrow> p)"

text \<open>A step of a pipeline schedule: time passes or caller \<open>i\<close> moves.\<close>

datatype p_action = Wait real | Move nat

definition p_exec :: "p_action \<Rightarrow> pipeline \<Rightarrow> pipeline" where
  "p_exec a p = (case a of Wait d \<Rightarrow> p\<lparr>p_clock := p_clock p + max 0 d\<rparr> | Move i \<Rightarrow> caller_step i p)"

fun p_run :: "p_action list \<Rightarrow> pipeline \<Rightarrow> pipeline" where
  "p_run [] p = p"
| "p_run (a # as) p = p_run as (p_exec a p)"

text \<open>
  A caller is inside the sequence "duplicate check to broadcast" from the moment it holds
  the lock until it has emitted or has been dropped.
\<close>

definition in_sequence :: "caller \<Rightarrow> bool" where
  "in_sequence th = (case c_pc th of BeforeLock \<Rightarrow> False | Dropped \<Rightarrow> False | Done \<Rightarrow> False | _ \<Rightarrow> True)"

definition in_lock :: "caller \<Rightarrow> bool" where
  "in_lock th = (case c_pc th of InLock t \<Rightarrow> True | _ \<Rightarrow> False)"

text \<open>Callers of \<^verbatim>\<open>log_event\<close> that have not started, over the store \<open>s\<close> at time \<open>t\<close>.\<close>

definition arrivals :: "(nat \<Rightarrow> string \<times> string) \<Rightarrow> sys \<Rightarrow> time \<Rightarrow> pipeline" where
  "arrivals args s t =
     \<lparr>store = s, lock_holder = None,
      callers = (\<lambda>i. \<lparr>c_pc = BeforeLock, c_type = fst (args i), c_description = snd (args i),
                     passed = None\<rparr>),
      p_clock = t\<rparr>"

text \<open>
  What holds of every pipeline reached from callers that have not started. The caller in
  the first block is the holder of the lock. A caller that got through the first block
  with clock reading \<open>t\<close> finds a timestamp of at least \<open>t\<close> under its key, and two such
  callers with the same key have readings two seconds apart. A caller past the first block
  has its reading recorded.
\<close>

definition key_of :: "caller \<Rightarrow> string" where
  "key_of th = event_key (c_type th) (c_description th)"

definition lock_consistent :: "pipeline \<Rightarrow> bool" where
  "lock_consistent p = (\<forall>i. in_lock (callers p i) = (lock_holder p = Some i))"

definition stamps_consistent :: "pipeline \<Rightarrow> bool" where
  "stamps_consistent p =
     ((\<forall>i t. passed (callers p i) = Some t \<longrightarrow>
         (\<exists>t'. last_event_timestamps (store p) (key_of (callers p i)) = Some t' \<and> t \<le> t'))
      \<and> (\<forall>i j ti tj. i \<noteq> j \<and> key_of (callers p i) = key_of (callers p j)
            \<and> passed (callers p i) = Some ti \<and> passed (callers p j) = Some tj
            \<longrightarrow> 2 \<le> \<bar>ti - tj\<bar>))"

definition after_lock :: "caller \<Rightarrow> bool" where
  "after_lock th = (case c_pc th of BeforeLock \<Rightarrow> False | InLock t \<Rightarrow> False | Dropped \<Rightarrow> False
                   | _ \<Rightarrow> True)"

definition passed_recorded :: "pipeline \<Rightarrow> bool" where
  "passed_recorded p = (\<forall>i. after_lock (callers p i) \<longrightarrow> passed (callers p i) \<noteq> None)"

definition pipeline_ok :: "pipeline \<Rightarrow> bool" where
  "pipeline_ok p = (lock_consistent p \<and> stamps_consistent p \<and> passed_recorded p)"

section \<open>Scenarios\<close>

text \<open>
  Schedules and states used to run the model. In \<open>expiry\<close> the door opens and stays open
  for a countdown of one second. In \<open>closing\<close> the door opens, closes after a tenth of a
  second, and the timer wakes from its first sleep. \<open>reopen_race\<close> goes on from there: the
  timer finds the door closed and leaves the loop, and the monitor sees the door open again
  before the timer moves on. A monitor step taken while the monitor waits in
  \<^verbatim>\<open>join()\<close> reads nothing; its reading is written \<open>Some True\<close>.
\<close>

definition expiry :: "action list" where
  "expiry =
     [Monitor (Some True), Monitor (Some True), Timer, Timer, Timer,
      Tick (1/2), Timer, Timer, Tick (1/2), Timer, Timer]"

definition closing :: "action list" where
  "closing =
     [Monitor (Some True), Monitor (Some True), Timer, Timer, Timer,
      Tick (1/10), Monitor (Some False), Tick (4/10), Timer]"

definition reopen_race :: "action list" where
  "reopen_race =
     [Monitor (Some True), Monitor (Some True), Timer, Timer, Timer,
      Tick (1/10), Monitor (Some False), Tick (4/10), Timer, Timer,
      Monitor (Some True)]"

text \<open>
  Two callers of \<^verbatim>\<open>log_event\<close>: the monitor with a \<open>door_open\<close> and the settings route
  with a \<open>setting_changed\<close>. In \<open>overtaking\<close> the first gets through the duplicate
  prevention, then the second does and inserts its row before the first.
\<close>

definition two_callers :: "nat \<Rightarrow> string \<times> string" where
  "two_callers i =
     (if i = 0 then (''door_open'', ''Door opened'')
      else (''setting_changed'', ''Timer duration changed to 45 seconds''))"

definition overtaking :: "p_action list" where
  "overtaking = [Move 0, Move 0, Move 1, Move 1, Move 1, Move 0, Move 1, Move 1, Move 0, Move 0]"

text \<open>A system whose stored timer duration is one second, and one in the middle of an alarm.\<close>

definition quick :: sys where
  "quick = initial\<lparr>timer_setting := Some ''1''\<rparr>"

definition ajar :: sys where
  "ajar = initial\<lparr>door_open := True, last_logged_door_state := Some True,
            last_logged_alarm_state := True\<rparr>"

section \<open>Facts about the event pipeline\<close>

lemma log_event_rejected:
  "duplicate_prevention t ty d s = None \<Longrightarrow> log_event t ty d s = s"
  by (simp add: log_event_def)

lemma log_event_accepted:
  "duplicate_prevention t ty d s = Some s' \<Longrightarrow> log_event t ty d s = log_event_app t ty d s'"
  by (simp add: log_event_def)

lemma window_rejects:
  "last_event_timestamps s (event_key ty d) = Some t0 \<Longrightarrow> t - t0 < 2 \<Longrightarrow>
   duplicate_prevention t ty d s = None"
  by (simp add: duplicate_prevention_def Let_def)

lemma accepted_stamps:
  "duplicate_prevention t ty d s = Some s' \<Longrightarrow>
   last_event_timestamps s' = (last_event_timestamps s)(event_key ty d \<mapsto> t)"
  by (auto simp: duplicate_prevention_def Let_def split: if_splits option.splits)

lemma accepted_log:
  "duplicate_prevention t ty d s = Some s' \<Longrightarrow> event_log s' = event_log s"
  by (auto simp: duplicate_prevention_def Let_def split: if_splits option.splits)

lemma accepted_emitted:
  "duplicate_prevention t ty d s = Some s' \<Longrightarrow> emitted s' = emitted s"
  by (auto simp: duplicate_prevention_def Let_def split: if_splits option.splits)

lemma log_event_app_dedup [simp]:
  "last_event_timestamps (log_event_app t ty d s) = last_event_timestamps s"
  "last_logged_door_state (log_event_app t ty d s) = last_logged_door_state s"
  "last_logged_alarm_state (log_event_app t ty d s) = last_logged_alarm_state s"
  by (simp_all add: log_event_app_def Let_def)

lemma log_event_app_log [simp]:
  "event_log (log_event_app t ty d s) =
     event_log s @ [\<lparr>ev_id = next_id (event_log s), ev_type = ty, ev_description = d,
                     ev_timestamp = t\<rparr>]"
  by (simp add: log_event_app_def Let_def)

lemma log_event_log:
  "duplicate_prevention t ty d s \<noteq> None \<Longrightarrow>
   event_log (log_event t ty d s) =
     event_log s @ [\<lparr>ev_id = next_id (event_log s), ev_type = ty, ev_description = d,
                     ev_timestamp = t\<rparr>]"
  by (auto simp: log_event_accepted accepted_log)

text \<open>
  A timestamp survives every submission that comes less than two seconds after it: one
  with the same key is dropped, one with another key writes elsewhere.
\<close>

lemma stamp_kept:
  assumes "last_event_timestamps s k = Some t1" and "t - t1 < 2"
  shows "last_event_timestamps (log_event t ty d s) k = Some t1"
proof (cases "duplicate_prevention t ty d s")
  case None
  then show ?thesis using assms by (simp add: log_event_rejected)
next
  case (Some s')
  have "event_key ty d \<noteq> k"
  proof
    assume "event_key ty d = k"
    then have "duplicate_prevention t ty d s = None"
      using assms by (simp add: window_rejects)
    with Some show False by simp
  qed
  then show ?thesis
    using Some assms by (simp add: log_event_accepted accepted_stamps)
qed

lemma stamp_kept_many:
  "last_event_timestamps s k = Some t1 \<Longrightarrow> \<forall>(t, ty, d) \<in> set mid. t - t1 < 2 \<Longrightarrow>
   last_event_timestamps (log_events mid s) k = Some t1"
proof (induction mid arbitrary: s)
  case Nil
  then show ?case by simp
next
  case (Cons x mid)
  obtain t ty d where x: "x = (t, ty, d)" by (cases x) auto
  show ?case using Cons x by (simp add: stamp_kept)
qed

lemma open_rejected_when_open:
  "last_logged_door_state s = Some True \<Longrightarrow> duplicate_prevention t ''door_open'' d s = None"
  by (simp add: duplicate_prevention_def Let_def split: option.splits)

lemma close_rejected_when_closed:
  "last_logged_door_state s = Some False \<Longrightarrow> duplicate_prevention t ''door_close'' d s = None"
  by (simp add: duplicate_prevention_def Let_def split: option.splits)

lemma alarm_rejected_when_set:
  "last_logged_alarm_state s \<Longrightarrow> duplicate_prevention t ''alarm_triggered'' d s = None"
  by (simp add: duplicate_prevention_def Let_def split: option.splits)

lemma accepted_flags:
  "duplicate_prevention t ty d s = Some s' \<Longrightarrow>
   last_logged_door_state s' =
     (if ty = ''door_open'' then Some True
      else if ty = ''door_close'' then Some False else last_logged_door_state s)
   \<and> last_logged_alarm_state s' = (ty = ''alarm_triggered'' \<or> last_logged_alarm_state s)"
  by (auto simp: duplicate_prevention_def Let_def split: if_splits option.splits)

lemma window_passes:
  "last_event_timestamps s (event_key ty d) = Some t0 \<Longrightarrow> \<not> t - t0 < 2 \<Longrightarrow>
   ty \<noteq> ''door_open'' \<Longrightarrow> ty \<noteq> ''door_close'' \<Longrightarrow> ty \<noteq> ''alarm_triggered'' \<Longrightarrow>
   duplicate_prevention t ty d s \<noteq> None"
  by (simp add: duplicate_prevention_def Let_def)

lemma suppressed_after_accepted:
  assumes acc: "duplicate_prevention t ty d s \<noteq> None"
    and ty: "ty = ''door_open'' \<or> ty = ''door_close'' \<or> ty = ''alarm_triggered''"
  shows "duplicate_prevention t' ty d' (log_event t ty d s) = None"
proof -
  obtain s' where s': "duplicate_prevention t ty d s = Some s'" using acc by blast
  note fl = accepted_flags [OF s']
  consider "ty = ''door_open''" | "ty = ''door_close''" | "ty = ''alarm_triggered''"
    using ty by blast
  then show ?thesis
  proof cases
    case 1
    then have "last_logged_door_state (log_event t ty d s) = Some True"
      using fl s' by (simp add: log_event_accepted)
    then show ?thesis unfolding 1 by (rule open_rejected_when_open)
  next
    case 2
    then have "last_logged_door_state (log_event t ty d s) = Some False"
      using fl s' by (simp add: log_event_accepted)
    then show ?thesis unfolding 2 by (rule close_rejected_when_closed)
  next
    case 3
    then have "last_logged_alarm_state (log_event t ty d s)"
      using fl s' by (simp add: log_event_accepted)
    then show ?thesis unfolding 3 by (rule alarm_rejected_when_set)
  qed
qed

lemma next_id_snoc: 
  "next_id (evs @ [\<lparr>ev_id = next_id evs, ev_type = ty, ev_description = d, ev_timestamp = t\<rparr>])
     = Suc (next_id evs)"
  by (simp add: next_id_def)



lemma log_event_length:
  "length (event_log (log_event t ty d s)) =
     length (event_log s) + (if duplicate_prevention t ty d s = None then 0 else 1)"
  by (cases "duplicate_prevention t ty d s") (simp_all add: log_event_rejected log_event_accepted accepted_log)


lemma count_three:
  "count_type ''door_open'' evs + count_type ''door_close'' evs + count_type ''alarm_triggered'' evs
     = length (filter (\<lambda>e. ev_type e = ''door_open'' \<or> ev_type e = ''door_close''
                           \<or> ev_type e = ''alarm_triggered'') evs)"
  by (induction evs) (auto simp: count_type_def)

lemma filter_all_iff: "length (filter P xs) = length xs \<longleftrightarrow> (\<forall>x \<in> set xs. P x)"
  by (metis filter_id_conv filter_True length_filter_less linorder_not_less order_le_less)

lemma last_emitted_app:
  "p_statistics (last (emitted (log_event_app now ty d s))) =
     get_statistics (event_log (log_event_app now ty d s))"
  by (simp add: log_event_app_def Let_def)

section \<open>Claims about the event pipeline\<close>

text \<open>
  C2, as the code has it. In \<^verbatim>\<open>app_with_html_errors.py\<close>: when a submission got through the
  duplicate prevention at time \<open>t1\<close>, a submission of the same type and description at a
  time \<open>t2\<close> with \<open>t2 - t1 < 2\<close> is dropped and leaves the whole state as it was (nothing is
  stored, broadcast or counted), whatever was submitted in between within those two
  seconds; the pair stores exactly one row. In \<^verbatim>\<open>app.py\<close> the same pair stores two rows:
  its \<^verbatim>\<open>log_event\<close> has no duplicate check.
\<close>

theorem C2_duplicate_within_two_seconds:
  assumes first: "duplicate_prevention t1 ty d s \<noteq> None"
    and between: "\<forall>(t, ty', d') \<in> set mid. t - t1 < 2"
    and second: "t2 - t1 < 2"
  shows "duplicate_prevention t2 ty d (log_events mid (log_event t1 ty d s)) = None
       \<and> log_event t2 ty d (log_events mid (log_event t1 ty d s))
           = log_events mid (log_event t1 ty d s)
       \<and> event_log (log_events [(t1, ty, d), (t2, ty, d)] s) =
           event_log s @ [\<lparr>ev_id = next_id (event_log s), ev_type = ty, ev_description = d,
                           ev_timestamp = t1\<rparr>]
       \<and> emitted (log_events [(t1, ty, d), (t2, ty, d)] s) = emitted (log_event t1 ty d s)
       \<and> length (event_log (log_events_app [(t1, ty, d), (t2, ty, d)] s))
           = length (event_log s) + 2"
proof -
  let ?s1 = "log_event t1 ty d s"
  obtain s1 where s1: "duplicate_prevention t1 ty d s = Some s1"
    using first by blast
  have k1: "last_event_timestamps ?s1 (event_key ty d) = Some t1"
    using s1 by (simp add: log_event_accepted accepted_stamps)
  then have "last_event_timestamps (log_events mid ?s1) (event_key ty d) = Some t1"
    using between by (rule stamp_kept_many)
  then have r: "duplicate_prevention t2 ty d (log_events mid ?s1) = None"
    using second by (rule window_rejects)
  have r0: "duplicate_prevention t2 ty d ?s1 = None"
    using k1 second by (rule window_rejects)
  have l: "event_log ?s1 =
      event_log s @ [\<lparr>ev_id = next_id (event_log s), ev_type = ty, ev_description = d,
                      ev_timestamp = t1\<rparr>]"
    using first by (rule log_event_log)
  show ?thesis using r r0 l by (simp add: log_event_rejected)
qed

text \<open>
  Witness for C2: on a fresh system, \<open>door_open\<close> at 0, a setting change at 0.5, \<open>door_open\<close>
  again at 1.5.
\<close>

theorem C2_duplicate_within_two_seconds_witness:
  "log_event (3/2) ''door_open'' ''Door opened''
     (log_events [(1/2, ''setting_changed'', ''Timer'')]
        (log_event 0 ''door_open'' ''Door opened'' initial))
   = log_events [(1/2, ''setting_changed'', ''Timer'')]
        (log_event 0 ''door_open'' ''Door opened'' initial)
   \<and> length (event_log (log_events
        [(0, ''door_open'', ''Door opened''), (3/2, ''door_open'', ''Door opened'')] initial)) = 1"
proof -
  have a: "duplicate_prevention 0 ''door_open'' ''Door opened'' initial \<noteq> None"
    by (simp add: duplicate_prevention_def initial_def Let_def)
  have b: "\<forall>(t, ty', d') \<in> set [(1/2 :: real, ''setting_changed'', ''Timer'')]. t - 0 < 2"
    by simp
  have c: "(3/2 :: real) - 0 < 2" by simp
  show ?thesis
    using C2_duplicate_within_two_seconds [OF a b c] by (simp add: initial_def)
qed

text \<open>
  C2 as stated fails on \<^verbatim>\<open>log_event\<close> of \<^verbatim>\<open>app.py\<close>: the same \<open>door_open\<close> submitted at 0
  and again one second later is stored twice, broadcast twice, and the second broadcast
  counts two events.
\<close>

theorem C2_app_stores_the_duplicate:
  "length (event_log (log_events_app
      [(0, ''door_open'', ''Door opened''), (1, ''door_open'', ''Door opened'')] initial)) = 2
   \<and> length (emitted (log_events_app
      [(0, ''door_open'', ''Door opened''), (1, ''door_open'', ''Door opened'')] initial)) = 2
   \<and> total_events (p_statistics (last (emitted (log_events_app
      [(0, ''door_open'', ''Door opened''), (1, ''door_open'', ''Door opened'')] initial)))) = 2"
  by (simp add: log_event_app_def initial_def Let_def get_statistics_def)



text \<open>
  C5, as the code has it. The statistics broadcast with a stored event are those of the
  table after the insert, in both files. \<^verbatim>\<open>total_events\<close> is the number of rows. The three
  counters add up to the number of rows of type \<open>door_open\<close>, \<open>door_close\<close> or
  \<open>alarm_triggered\<close>, which is at most the number of rows and equals it exactly when the
  table holds no row of another type.
\<close>

theorem C5_statistics_of_the_stored_log:
  "p_statistics (last (emitted (log_event_app now ty d s)))
     = get_statistics (event_log (log_event_app now ty d s))
   \<and> (duplicate_prevention now ty d s \<noteq> None \<longrightarrow>
        p_statistics (last (emitted (log_event now ty d s)))
          = get_statistics (event_log (log_event now ty d s)))
   \<and> total_events (get_statistics evs) = length evs
   \<and> door_open_events (get_statistics evs) + door_close_events (get_statistics evs)
       + alarm_events (get_statistics evs)
     = length (filter (\<lambda>e. ev_type e = ''door_open'' \<or> ev_type e = ''door_close''
                           \<or> ev_type e = ''alarm_triggered'') evs)
   \<and> door_open_events (get_statistics evs) + door_close_events (get_statistics evs)
       + alarm_events (get_statistics evs) \<le> total_events (get_statistics evs)
   \<and> (door_open_events (get_statistics evs) + door_close_events (get_statistics evs)
       + alarm_events (get_statistics evs) = total_events (get_statistics evs)
      \<longleftrightarrow> (\<forall>e \<in> set evs. ev_type e = ''door_open'' \<or> ev_type e = ''door_close''
                           \<or> ev_type e = ''alarm_triggered''))"
proof -
  let ?P = "\<lambda>e. ev_type e = ''door_open'' \<or> ev_type e = ''door_close''
                           \<or> ev_type e = ''alarm_triggered''"
  have a: "duplicate_prevention now ty d s \<noteq> None \<longrightarrow>
        p_statistics (last (emitted (log_event now ty d s)))
          = get_statistics (event_log (log_event now ty d s))"
    by (auto simp: log_event_accepted last_emitted_app simp del: log_event_app_log)
  have sum: "door_open_events (get_statistics evs) + door_close_events (get_statistics evs)
       + alarm_events (get_statistics evs) = length (filter ?P evs)"
    using count_three [of evs] by (simp add: get_statistics_def)
  have tot: "total_events (get_statistics evs) = length evs"
    by (simp add: get_statistics_def)
  show ?thesis
    unfolding sum tot using a last_emitted_app [of now ty d s] filter_all_iff [of ?P evs]
    by simp
qed

text \<open>Witness for C5: the first \<open>door_open\<close> of a fresh system.\<close>

theorem C5_statistics_of_the_stored_log_witness:
  "p_statistics (last (emitted (log_event 0 ''door_open'' ''Door opened'' initial)))
     = \<lparr>total_events = 1, door_open_events = 1, door_close_events = 0, alarm_events = 0\<rparr>
   \<and> (door_open_events (get_statistics [\<lparr>ev_id = 1, ev_type = ''door_open'',
          ev_description = ''Door opened'', ev_timestamp = 0\<rparr>])
       + door_close_events (get_statistics [\<lparr>ev_id = 1, ev_type = ''door_open'',
          ev_description = ''Door opened'', ev_timestamp = 0\<rparr>])
       + alarm_events (get_statistics [\<lparr>ev_id = 1, ev_type = ''door_open'',
          ev_description = ''Door opened'', ev_timestamp = 0\<rparr>])
      = total_events (get_statistics [\<lparr>ev_id = 1, ev_type = ''door_open'',
          ev_description = ''Door opened'', ev_timestamp = 0\<rparr>]))"
proof -
  have acc: "duplicate_prevention 0 ''door_open'' ''Door opened'' initial \<noteq> None"
    by (simp add: duplicate_prevention_def initial_def Let_def)
  have all: "\<forall>e \<in> set [\<lparr>ev_id = 1, ev_type = ''door_open'',
          ev_description = ''Door opened'', ev_timestamp = 0 :: real\<rparr>].
       ev_type e = ''door_open'' \<or> ev_type e = ''door_close'' \<or> ev_type e = ''alarm_triggered''"
    by simp
  have log: "event_log (log_event 0 ''door_open'' ''Door opened'' initial) =
      [\<lparr>ev_id = 1, ev_type = ''door_open'', ev_description = ''Door opened'', ev_timestamp = 0\<rparr>]"
    using acc by (simp add: log_event_log) (simp add: initial_def next_id_def)
  note T = C5_statistics_of_the_stored_log [where now = 0 and ty = "''door_open''" and d = "''Door opened''" and s = initial
      and evs = "[\<lparr>ev_id = 1, ev_type = ''door_open'', ev_description = ''Door opened'',
                   ev_timestamp = 0\<rparr>]"]
  have 1: "p_statistics (last (emitted (log_event 0 ''door_open'' ''Door opened'' initial)))
     = get_statistics (event_log (log_event 0 ''door_open'' ''Door opened'' initial))"
    by (rule T [THEN conjunct2, THEN conjunct1, THEN mp, OF acc])
  have 2: "door_open_events (get_statistics [\<lparr>ev_id = 1, ev_type = ''door_open'',
          ev_description = ''Door opened'', ev_timestamp = 0\<rparr>])
       + door_close_events (get_statistics [\<lparr>ev_id = 1, ev_type = ''door_open'',
          ev_description = ''Door opened'', ev_timestamp = 0\<rparr>])
       + alarm_events (get_statistics [\<lparr>ev_id = 1, ev_type = ''door_open'',
          ev_description = ''Door opened'', ev_timestamp = 0\<rparr>])
      = total_events (get_statistics [\<lparr>ev_id = 1, ev_type = ''door_open'',
          ev_description = ''Door opened'', ev_timestamp = 0\<rparr>])"
    by (rule T [THEN conjunct2, THEN conjunct2, THEN conjunct2, THEN conjunct2, THEN conjunct2,
          THEN iffD2, OF all])
  show ?thesis unfolding 1 log using 2 by (simp add: get_statistics_def count_type_def)
qed

text \<open>
  C5 as stated fails when a \<open>setting_changed\<close> event is stored (the settings route submits
  it): one row, and the three counters add up to 0.
\<close>

theorem C5_other_types_are_not_counted:
  "total_events (p_statistics (last (emitted
      (log_event_app 0 ''setting_changed'' ''Timer duration changed to 45 seconds'' initial)))) = 1
   \<and> door_open_events (p_statistics (last (emitted
      (log_event_app 0 ''setting_changed'' ''Timer duration changed to 45 seconds'' initial))))
     + door_close_events (p_statistics (last (emitted
      (log_event_app 0 ''setting_changed'' ''Timer duration changed to 45 seconds'' initial))))
     + alarm_events (p_statistics (last (emitted
      (log_event_app 0 ''setting_changed'' ''Timer duration changed to 45 seconds'' initial)))) = 0"
  by (simp add: log_event_app_def initial_def Let_def get_statistics_def count_type_def)

text \<open>
  C10, as the code has it. A dropped submission leaves the whole state as it was, so the
  timestamps and both flags are unchanged. Of three submissions of the same type and
  description at \<open>t\<close>, \<open>t + 1.5\<close> and \<open>t + 3\<close>, the first having got through, the second is
  dropped without moving the timestamp; the third is stored when the type is none of
  \<open>door_open\<close>, \<open>door_close\<close>, \<open>alarm_triggered\<close> (two rows), and is dropped by the flag of
  its type when it is one of them (one row).
\<close>

theorem C10_rejection_changes_nothing:
  "(duplicate_prevention t ty d s = None \<longrightarrow>
      log_event t ty d s = s
      \<and> last_event_timestamps (log_event t ty d s) = last_event_timestamps s
      \<and> last_logged_door_state (log_event t ty d s) = last_logged_door_state s
      \<and> last_logged_alarm_state (log_event t ty d s) = last_logged_alarm_state s)
 \<and> (duplicate_prevention t ty d s \<noteq> None
      \<and> ty \<noteq> ''door_open'' \<and> ty \<noteq> ''door_close'' \<and> ty \<noteq> ''alarm_triggered'' \<longrightarrow>
      event_log (log_events [(t, ty, d), (t + 3/2, ty, d), (t + 3, ty, d)] s) =
        event_log s
        @ [\<lparr>ev_id = next_id (event_log s), ev_type = ty, ev_description = d, ev_timestamp = t\<rparr>,
           \<lparr>ev_id = Suc (next_id (event_log s)), ev_type = ty, ev_description = d,
            ev_timestamp = t + 3\<rparr>])
 \<and> (duplicate_prevention t ty d s \<noteq> None
      \<and> (ty = ''door_open'' \<or> ty = ''door_close'' \<or> ty = ''alarm_triggered'') \<longrightarrow>
      event_log (log_events [(t, ty, d), (t + 3/2, ty, d), (t + 3, ty, d)] s) =
        event_log s
        @ [\<lparr>ev_id = next_id (event_log s), ev_type = ty, ev_description = d, ev_timestamp = t\<rparr>])"
proof -
  let ?s1 = "log_event t ty d s"
  let ?e1 = "\<lparr>ev_id = next_id (event_log s), ev_type = ty, ev_description = d, ev_timestamp = t\<rparr>"
  let ?e2 = "\<lparr>ev_id = Suc (next_id (event_log s)), ev_type = ty, ev_description = d,
            ev_timestamp = t + 3\<rparr>"
  let ?three = "log_events [(t, ty, d), (t + 3/2, ty, d), (t + 3, ty, d)] s"
  have a: "duplicate_prevention t ty d s = None \<longrightarrow>
      log_event t ty d s = s
      \<and> last_event_timestamps (log_event t ty d s) = last_event_timestamps s
      \<and> last_logged_door_state (log_event t ty d s) = last_logged_door_state s
      \<and> last_logged_alarm_state (log_event t ty d s) = last_logged_alarm_state s"
    by (simp add: log_event_rejected)
  have stamp: "last_event_timestamps ?s1 (event_key ty d) = Some t"
    if acc0: "duplicate_prevention t ty d s \<noteq> None"
  proof -
    obtain s' where "duplicate_prevention t ty d s = Some s'" using acc0 by blast
    then show ?thesis by (simp add: log_event_accepted accepted_stamps)
  qed
  have second: "log_event (t + 3/2) ty d ?s1 = ?s1" if acc: "duplicate_prevention t ty d s \<noteq> None"
  proof -
    have "(t + 3/2) - t < 2" by simp
    with stamp [OF acc] have "duplicate_prevention (t + 3/2) ty d ?s1 = None"
      by (rule window_rejects)
    then show ?thesis by (rule log_event_rejected)
  qed
  have unfold3: "?three = log_event (t + 3) ty d (log_event (t + 3/2) ty d ?s1)"
    by simp
  have b: "event_log ?three = event_log s @ [?e1, ?e2]"
    if acc: "duplicate_prevention t ty d s \<noteq> None"
      and ty: "ty \<noteq> ''door_open''" "ty \<noteq> ''door_close''" "ty \<noteq> ''alarm_triggered''"
  proof -
    have "\<not> (t + 3) - t < 2" by simp
    with stamp [OF acc] have "duplicate_prevention (t + 3) ty d ?s1 \<noteq> None"
      using ty by (rule window_passes)
    then have "event_log (log_event (t + 3) ty d ?s1) =
        event_log ?s1 @ [\<lparr>ev_id = next_id (event_log ?s1), ev_type = ty, ev_description = d,
                     ev_timestamp = t + 3\<rparr>]"
      by (rule log_event_log)
    then show ?thesis
      unfolding unfold3 second [OF acc] log_event_log [OF acc] next_id_snoc by simp
  qed
  have c: "event_log ?three = event_log s @ [?e1]"
    if acc: "duplicate_prevention t ty d s \<noteq> None"
      and ty: "ty = ''door_open'' \<or> ty = ''door_close'' \<or> ty = ''alarm_triggered''"
  proof -
    have "duplicate_prevention (t + 3) ty d ?s1 = None"
      using acc ty by (rule suppressed_after_accepted)
    then have "log_event (t + 3) ty d ?s1 = ?s1" by (rule log_event_rejected)
    then show ?thesis
      unfolding unfold3 second [OF acc] using log_event_log [OF acc] by simp
  qed
  show ?thesis using a b c by blast
qed

text \<open>
  Witness for C10: a dropped \<open>door_open\<close>, three \<open>setting_changed\<close> and three \<open>door_close\<close>
  on a fresh system.
\<close>

theorem C10_rejection_changes_nothing_witness:
  "log_event 1 ''door_open'' ''Door opened'' (log_event 0 ''door_open'' ''Door opened'' initial)
     = log_event 0 ''door_open'' ''Door opened'' initial
   \<and> map ev_timestamp (event_log (log_events
       [(0, ''setting_changed'', ''Timer''), (0 + 3/2, ''setting_changed'', ''Timer''),
        (0 + 3, ''setting_changed'', ''Timer'')] initial)) = [0, 0 + 3]
   \<and> map ev_timestamp (event_log (log_events
       [(0, ''door_close'', ''Door closed''), (0 + 3/2, ''door_close'', ''Door closed''),
        (0 + 3, ''door_close'', ''Door closed'')] initial)) = [0]"
proof -
  have r: "duplicate_prevention 1 ''door_open'' ''Door opened''
      (log_event 0 ''door_open'' ''Door opened'' initial) = None"
    by (simp add: log_event_def duplicate_prevention_def event_key_def initial_def Let_def)
  have s: "duplicate_prevention 0 ''setting_changed'' ''Timer'' initial \<noteq> None
      \<and> ''setting_changed'' \<noteq> ''door_open'' \<and> ''setting_changed'' \<noteq> ''door_close''
      \<and> ''setting_changed'' \<noteq> ''alarm_triggered''"
    by (simp add: duplicate_prevention_def initial_def Let_def)
  have c: "duplicate_prevention 0 ''door_close'' ''Door closed'' initial \<noteq> None
      \<and> (''door_close'' = ''door_open'' \<or> ''door_close'' = ''door_close''
          \<or> ''door_close'' = ''alarm_triggered'')"
    by (simp add: duplicate_prevention_def initial_def Let_def)
  have e: "event_log initial = []" by (simp add: initial_def)
  have 1: "log_event 1 ''door_open'' ''Door opened'' (log_event 0 ''door_open'' ''Door opened'' initial)
     = log_event 0 ''door_open'' ''Door opened'' initial"
    by (rule C10_rejection_changes_nothing [THEN conjunct1, THEN mp, OF r, THEN conjunct1])
  have 2: "event_log (log_events
       [(0, ''setting_changed'', ''Timer''), (0 + 3/2, ''setting_changed'', ''Timer''),
        (0 + 3, ''setting_changed'', ''Timer'')] initial) = event_log initial
        @ [\<lparr>ev_id = next_id (event_log initial), ev_type = ''setting_changed'',
             ev_description = ''Timer'', ev_timestamp = 0\<rparr>,
           \<lparr>ev_id = Suc (next_id (event_log initial)), ev_type = ''setting_changed'',
            ev_description = ''Timer'', ev_timestamp = 0 + 3\<rparr>]"
    by (rule C10_rejection_changes_nothing [THEN conjunct2, THEN conjunct1, THEN mp, OF s])
  have 3: "event_log (log_events
       [(0, ''door_close'', ''Door closed''), (0 + 3/2, ''door_close'', ''Door closed''),
        (0 + 3, ''door_close'', ''Door closed'')] initial) = event_log initial
        @ [\<lparr>ev_id = next_id (event_log initial), ev_type = ''door_close'',
             ev_description = ''Door closed'', ev_timestamp = 0\<rparr>]"
    by (rule C10_rejection_changes_nothing [THEN conjunct2, THEN conjunct2, THEN mp, OF c])
  show ?thesis unfolding 2 3 e using 1 by simp
qed

text \<open>
  C10 as stated fails for \<open>door_open\<close>: submitted at 0, 1.5 and 3 on a fresh system it is
  stored once, the third being dropped because the door is already logged as open.
\<close>

theorem C10_third_open_is_suppressed:
  "length (event_log (log_events
     [(0, ''door_open'', ''Door opened''), (3/2, ''door_open'', ''Door opened''),
      (3, ''door_open'', ''Door opened'')] initial)) = 1"
  by (simp add: log_event_def duplicate_prevention_def event_key_def initial_def Let_def)

section \<open>Facts about the dispatcher, the monitor and the timer\<close>

lemma submit_html [simp]: "submit AppWithHtmlErrors = log_event"
  by (simp add: submit_def)

lemma submit_app [simp]: "submit App = log_event_app"
  by (simp add: submit_def)

lemma log_event_app_flags [simp]:
  "door_open (log_event_app t ty d s) = door_open s"
  "alarm_active (log_event_app t ty d s) = alarm_active s"
  "timer_active (log_event_app t ty d s) = timer_active s"
  by (simp_all add: log_event_app_def Let_def)

lemma accepted_door_flags:
  "duplicate_prevention t ty d s = Some s' \<Longrightarrow>
   door_open s' = door_open s \<and> alarm_active s' = alarm_active s \<and> timer_active s' = timer_active s"
  by (auto simp: duplicate_prevention_def Let_def split: if_splits option.splits)

lemma log_event_door_flags [simp]:
  "door_open (log_event t ty d s) = door_open s"
  "alarm_active (log_event t ty d s) = alarm_active s"
  "timer_active (log_event t ty d s) = timer_active s"
  by (cases "duplicate_prevention t ty d s";
      simp add: log_event_rejected log_event_accepted accepted_door_flags)+

lemma submit_flags [simp]:
  "door_open (submit v t ty d s) = door_open s"
  "alarm_active (submit v t ty d s) = alarm_active s"
  "timer_active (submit v t ty d s) = timer_active s"
  by (cases v; simp)+

lemma log_event_app_env [simp]:
  "timer_setting (log_event_app t ty d s) = timer_setting s"
  "testing (log_event_app t ty d s) = testing s"
  by (simp_all add: log_event_app_def Let_def)

lemma accepted_env:
  "duplicate_prevention t ty d s = Some s' \<Longrightarrow>
   timer_setting s' = timer_setting s \<and> testing s' = testing s"
  by (auto simp: duplicate_prevention_def Let_def split: if_splits option.splits)

lemma log_event_env [simp]:
  "timer_setting (log_event t ty d s) = timer_setting s"
  "testing (log_event t ty d s) = testing s"
  by (cases "duplicate_prevention t ty d s"; simp add: log_event_rejected log_event_accepted accepted_env)+

lemma submit_env [simp]:
  "timer_setting (submit v t ty d s) = timer_setting s"
  "testing (submit v t ty d s) = testing s"
  by (cases v; simp)+

lemma log_event_flags:
  "last_logged_alarm_state (log_event t ty d s) = (last_logged_alarm_state s \<or> (ty = ''alarm_triggered'' \<and> duplicate_prevention t ty d s \<noteq> None))"
  "last_logged_door_state (log_event t ty d s) =
      (if duplicate_prevention t ty d s = None then last_logged_door_state s
       else if ty = ''door_open'' then Some True
       else if ty = ''door_close'' then Some False else last_logged_door_state s)"
  by (cases "duplicate_prevention t ty d s"; auto simp: log_event_rejected log_event_accepted dest: accepted_flags)+

lemma try_frame:
  "(snd (send_alarm_email_try d s))\<lparr>outbox := outbox s\<rparr> = s"
  by (auto simp: send_alarm_email_try_def Let_def split: option.splits prod.splits)

lemma send_snd: "snd (send_alarm_email d s) = snd (send_alarm_email_try d s)"
  by (auto simp: send_alarm_email_def split: prod.splits sum.splits smtp_error.splits)

lemma send_flags [simp]:
  "door_open (snd (send_alarm_email d s)) = door_open s"
  "alarm_active (snd (send_alarm_email d s)) = alarm_active s"
  "timer_active (snd (send_alarm_email d s)) = timer_active s"
proof -
  let ?s' = "snd (send_alarm_email_try d s)"
  have "door_open (?s'\<lparr>outbox := outbox s\<rparr>) = door_open s"
    "alarm_active (?s'\<lparr>outbox := outbox s\<rparr>) = alarm_active s"
    "timer_active (?s'\<lparr>outbox := outbox s\<rparr>) = timer_active s"
    unfolding try_frame by simp_all
  then show "door_open (snd (send_alarm_email d s)) = door_open s"
    "alarm_active (snd (send_alarm_email d s)) = alarm_active s"
    "timer_active (snd (send_alarm_email d s)) = timer_active s"
    by (simp_all add: send_snd)
qed

lemma send_returns: "\<exists>r. fst (send_alarm_email d s) = Inr r"
  by (auto simp: send_alarm_email_def split: prod.splits sum.splits smtp_error.splits)

lemma send_not_raised: "fst (send_alarm_email d s) \<noteq> Inl e"
  using send_returns [of d s] by auto

lemma send_log_kept:
  "event_log (snd (send_alarm_email d s)) = event_log s
   \<and> emitted (snd (send_alarm_email d s)) = emitted s"
proof -
  have "event_log ((snd (send_alarm_email_try d s))\<lparr>outbox := outbox s\<rparr>) = event_log s
     \<and> emitted ((snd (send_alarm_email_try d s))\<lparr>outbox := outbox s\<rparr>) = emitted s"
    unfolding try_frame by simp
  then show ?thesis by (simp add: send_snd)
qed

lemma timer_final_no_exception: "fst (alarm_timer_final v now d s) = None"
proof (cases "timer_active s \<and> door_open s")
  case False
  then show ?thesis by (auto simp: alarm_timer_final_def Let_def)
next
  case True
  define s3 where "s3 = submit v now ''alarm_triggered''
                    (''Alarm triggered after '' @ str_int d @ '' seconds'')
      (if testing s then s\<lparr>timer_active := False, alarm_active := True\<rparr>
       else s\<lparr>timer_active := False, alarm_active := True, red_led := False, white_led := True\<rparr>)"
  obtain r where r: "fst (send_alarm_email d s3) = Inr r" using send_returns by blast
  have "alarm_timer_final v now d s = (None, snd (send_alarm_email d s3))"
    using True r unfolding alarm_timer_final_def Let_def s3_def
    by (cases "testing s") (auto split: prod.splits sum.splits)
  then show ?thesis by simp
qed

lemma final_snd:
  "snd (alarm_timer_final v now d s) =
     (if timer_active s \<and> door_open s then
        snd (send_alarm_email d
          (submit v now ''alarm_triggered'' (''Alarm triggered after '' @ str_int d @ '' seconds'')
             (if testing s then s\<lparr>timer_active := False, alarm_active := True\<rparr>
              else s\<lparr>timer_active := False, alarm_active := True, red_led := False,
                      white_led := True\<rparr>)))
      else if testing s then s\<lparr>timer_active := False, alarm_active := False\<rparr>
      else s\<lparr>timer_active := False, alarm_active := False, red_led := False, white_led := False\<rparr>)"
  by (auto simp: alarm_timer_final_def Let_def split: prod.splits sum.splits)

lemma final_flags:
  "\<not> timer_active (snd (alarm_timer_final v now d s))"
  "alarm_active (snd (alarm_timer_final v now d s)) = (timer_active s \<and> door_open s)"
  "door_open (snd (alarm_timer_final v now d s)) = door_open s"
  by (simp_all add: final_snd)

lemma final_log_kept:
  "\<not> (timer_active s \<and> door_open s) \<Longrightarrow>
   event_log (snd (alarm_timer_final v now d s)) = event_log s
   \<and> emitted (snd (alarm_timer_final v now d s)) = emitted s
   \<and> outbox (snd (alarm_timer_final v now d s)) = outbox s"
  by (auto simp: final_snd)

lemma final_log_app:
  "timer_active s \<and> door_open s \<Longrightarrow>
   event_log (snd (alarm_timer_final App now d s)) =
     event_log s @ [\<lparr>ev_id = next_id (event_log s), ev_type = ''alarm_triggered'',
        ev_description = ''Alarm triggered after '' @ str_int d @ '' seconds'',
        ev_timestamp = now\<rparr>]"
  by (simp add: final_snd send_log_kept)














lemma run_ticks:
  "run v (map Tick ds) c = c\<lparr>clock := clock c + sum_list (map (max 0) ds)\<rparr>"
  by (induction ds arbitrary: c) (simp_all add: exec_def add.assoc)

lemma timer_step_final:
  "timer_thread c = Some th \<Longrightarrow> pc th = AtFinal k \<Longrightarrow>
   timer_step v c =
     c\<lparr>shared := snd (alarm_timer_final v (clock c) (duration th) (shared c)),
       timer_thread := Some (th\<lparr>pc := Finished\<rparr>)\<rparr>"
  by (simp add: timer_step_def goto_def Let_def)

lemma early_exit:
  assumes "timer_thread c = Some th"
    and "pc th = AtWhile \<or> pc th = AtCheck1 \<or> pc th = AtCheck2"
    and "map_option pc (timer_thread (timer_step v c)) = Some (AtFinal Early)"
  shows "\<not> (timer_active (shared c) \<and> door_open (shared c))
       \<and> timer_step v c = c\<lparr>timer_thread := Some (th\<lparr>pc := AtFinal Early\<rparr>)\<rparr>"
  using assms by (auto simp: timer_step_def goto_def Let_def split: if_splits)

lemma elapsed_exit:
  assumes "timer_thread c = Some th"
    and "map_option pc (timer_thread (timer_step v c)) = Some (AtFinal Elapsed)"
    and "pc th \<noteq> AtFinal Elapsed"
  shows "pc th = AtWhile \<and> timer_active (shared c)
       \<and> of_int (duration th) \<le> clock c - start_time th"
  using assms by (auto simp: timer_step_def goto_def Let_def split: if_splits timer_pc.splits)

lemma early_exit_aborts:
  assumes th: "timer_thread c = Some th"
    and at: "pc th = AtWhile \<or> pc th = AtCheck1 \<or> pc th = AtCheck2"
    and early: "map_option pc (timer_thread (timer_step v c)) = Some (AtFinal Early)"
  shows "shared (timer_step v (run v (map Tick ds) (timer_step v c))) =
     (if testing (shared c) then (shared c)\<lparr>timer_active := False, alarm_active := False\<rparr>
      else (shared c)\<lparr>timer_active := False, alarm_active := False, red_led := False,
             white_led := False\<rparr>)"
proof -
  note e = early_exit [OF th at early]
  let ?c1 = "c\<lparr>timer_thread := Some (th\<lparr>pc := AtFinal Early\<rparr>)\<rparr>"
  let ?c2 = "?c1\<lparr>clock := clock ?c1 + sum_list (map (max 0) ds)\<rparr>"
  have "run v (map Tick ds) (timer_step v c) = ?c2"
    using e by (simp add: run_ticks)
  moreover have "timer_step v ?c2 =
      ?c2\<lparr>shared := snd (alarm_timer_final v (clock ?c2) (duration (th\<lparr>pc := AtFinal Early\<rparr>)) (shared ?c2)),
       timer_thread := Some ((th\<lparr>pc := AtFinal Early\<rparr>)\<lparr>pc := Finished\<rparr>)\<rparr>"
    by (rule timer_step_final) simp_all
  ultimately show ?thesis using e by (simp add: final_snd)
qed

lemma int_of_str_30: "int_of_str ''30'' = Some 30"
  by (simp add: int_of_str_def strip_def is_space_def is_digit_def digits_value_def Let_def)

lemma int_of_str_1: "int_of_str ''1'' = Some 1"
  by (simp add: int_of_str_def strip_def is_space_def is_digit_def digits_value_def Let_def)

lemma str_int_30: "str_int 30 = ''30''"
  by (simp add: str_int_def str_nat.simps [of 30] str_nat.simps [of 3] digit_char_def)

lemma str_int_1: "str_int 1 = ''1''"
  by (simp add: str_int_def str_nat.simps [of "Suc 0"] digit_char_def)

lemmas evaluate = exec_def monitor_step_def timer_step_def goto_def monitor_door_iteration_def
  alarm_timer_final_def send_alarm_email_def send_alarm_email_try_def submit_def
  log_event_def duplicate_prevention_def event_key_def log_event_app_def get_statistics_def
  count_type_def next_id_def int_of_str_30 str_int_30 int_of_str_1 str_int_1 boot_def
  initial_def is_alive_def Let_def

lemma expiry_reaches:
  "run App expiry (boot quick) =
     \<lparr>shared = (log_event_app 0 ''door_open'' ''Door opened''
          (quick\<lparr>door_open := True, timer_active := True, timer_duration := 1\<rparr>)),
      clock = 1, monitor = Polling (1/10),
      timer_thread = Some \<lparr>pc = AtFinal Elapsed, start_time = 0, duration = 1\<rparr>\<rparr>"
  by (simp add: evaluate expiry_def quick_def)

lemma closing_reaches:
  "timer_thread (run App closing (boot initial)) =
     Some \<lparr>pc = AtCheck2, start_time = 0, duration = 30\<rparr>
   \<and> \<not> timer_active (shared (run App closing (boot initial)))
   \<and> \<not> testing (shared (run App closing (boot initial)))
   \<and> map ev_type (event_log (shared (run App closing (boot initial)))) = [''door_open'', ''door_close'']"
  by (simp add: evaluate closing_def)

section \<open>Claims about the monitor, the timer and the dispatcher\<close>

text \<open>
  C9. \<^verbatim>\<open>send_alarm_email\<close> always returns, and so does the statement of \<^verbatim>\<open>alarm_timer\<close> that
  calls it. It changes nothing but the outbox, so the stored and broadcast events stay.
  Without a configuration row, with a row not marked configured, or with an empty sender,
  password or recipient list it returns at once and sends nothing. When a stage of the
  SMTP dialogue raises, the \<^verbatim>\<open>try\<close> block raises and the handler of that class of
  exception returns.
\<close>

theorem C9_send_alarm_email_never_raises:
  "(\<exists>r. fst (send_alarm_email d s) = Inr r)
 \<and> fst (alarm_timer_final v now d s) = None
 \<and> (snd (send_alarm_email d s))\<lparr>outbox := outbox s\<rparr> = s
 \<and> event_log (snd (send_alarm_email d s)) = event_log s
 \<and> emitted (snd (send_alarm_email d s)) = emitted s
 \<and> (email_row s = None \<longrightarrow> send_alarm_email d s = (Inr NoConfiguration, s))
 \<and> (email_row s = Some cfg \<and> \<not> is_configured cfg \<longrightarrow>
      send_alarm_email d s = (Inr NotConfigured, s))
 \<and> (email_row s = Some cfg \<and> is_configured cfg
      \<and> (sender_email cfg = [] \<or> app_password cfg = [] \<or> recipient_emails cfg = []) \<longrightarrow>
      send_alarm_email d s = (Inr Incomplete, s))
 \<and> (email_row s = Some cfg \<and> is_configured cfg \<and> sender_email cfg \<noteq> []
      \<and> app_password cfg \<noteq> [] \<and> recipient_emails cfg \<noteq> [] \<and> smtp s = Some (stage, e) \<longrightarrow>
      fst (send_alarm_email_try d s) = Inl e
      \<and> fst (send_alarm_email d s) =
          Inr (case e of SMTPAuthenticationError \<Rightarrow> AuthenticationFailed
               | SMTPException \<Rightarrow> SmtpFailed | OtherException \<Rightarrow> UnexpectedFailure))"
proof -
  have a: "email_row s = None \<longrightarrow> send_alarm_email d s = (Inr NoConfiguration, s)"
    by (simp add: send_alarm_email_def send_alarm_email_try_def)
  have b: "email_row s = Some cfg \<and> \<not> is_configured cfg \<longrightarrow>
      send_alarm_email d s = (Inr NotConfigured, s)"
    by (simp add: send_alarm_email_def send_alarm_email_try_def)
  have c: "email_row s = Some cfg \<and> is_configured cfg
      \<and> (sender_email cfg = [] \<or> app_password cfg = [] \<or> recipient_emails cfg = []) \<longrightarrow>
      send_alarm_email d s = (Inr Incomplete, s)"
    by (auto simp: send_alarm_email_def send_alarm_email_try_def)
  have e: "email_row s = Some cfg \<and> is_configured cfg \<and> sender_email cfg \<noteq> []
      \<and> app_password cfg \<noteq> [] \<and> recipient_emails cfg \<noteq> [] \<and> smtp s = Some (stage, e) \<longrightarrow>
      fst (send_alarm_email_try d s) = Inl e
      \<and> fst (send_alarm_email d s) =
          Inr (case e of SMTPAuthenticationError \<Rightarrow> AuthenticationFailed
               | SMTPException \<Rightarrow> SmtpFailed | OtherException \<Rightarrow> UnexpectedFailure)"
    by (cases e) (simp_all add: send_alarm_email_def send_alarm_email_try_def Let_def)
  show ?thesis
    using a b c e send_returns [where d = d and s = s]
      timer_final_no_exception [where v = v and now = now and d = d and s = s]
      send_log_kept [where d = d and s = s] try_frame [where d = d and s = s]
    by (simp only: send_snd simp_thms)
qed

text \<open>
  Witness for C9: a system without configuration, one whose row is not marked configured,
  one without recipients, and a configured one whose server refuses the login.
\<close>

theorem C9_send_alarm_email_never_raises_witness:
  "send_alarm_email 30 initial = (Inr NoConfiguration, initial)
 \<and> fst (send_alarm_email 30
      (initial\<lparr>email_row := Some \<lparr>sender_email = ''door@bsm.example'', app_password = ''secret'',
            recipient_emails = ''a@bsm.example, b@bsm.example'', is_configured = False\<rparr>\<rparr>))
     = Inr NotConfigured
 \<and> fst (send_alarm_email 30
      (initial\<lparr>email_row := Some \<lparr>sender_email = ''door@bsm.example'', app_password = ''secret'',
            recipient_emails = [], is_configured = True\<rparr>\<rparr>))
     = Inr Incomplete
 \<and> fst (send_alarm_email_try 30
      (initial\<lparr>email_row := Some \<lparr>sender_email = ''door@bsm.example'', app_password = ''secret'',
            recipient_emails = ''a@bsm.example, b@bsm.example'', is_configured = True\<rparr>,
          smtp := Some (Login, SMTPAuthenticationError)\<rparr>)) = Inl SMTPAuthenticationError
 \<and> fst (send_alarm_email 30
      (initial\<lparr>email_row := Some \<lparr>sender_email = ''door@bsm.example'', app_password = ''secret'',
            recipient_emails = ''a@bsm.example, b@bsm.example'', is_configured = True\<rparr>,
          smtp := Some (Login, SMTPAuthenticationError)\<rparr>)) = Inr AuthenticationFailed"
proof -
  let ?cfg = "\<lparr>sender_email = ''door@bsm.example'', app_password = ''secret'',
            recipient_emails = ''a@bsm.example, b@bsm.example'', is_configured = True\<rparr>"
  let ?s = "initial\<lparr>email_row := Some ?cfg, smtp := Some (Login, SMTPAuthenticationError)\<rparr>"
  let ?off = "\<lparr>sender_email = ''door@bsm.example'', app_password = ''secret'',
            recipient_emails = ''a@bsm.example, b@bsm.example'', is_configured = False\<rparr>"
  let ?bare = "\<lparr>sender_email = ''door@bsm.example'', app_password = ''secret'',
            recipient_emails = [], is_configured = True\<rparr>"
  have n: "email_row initial = None" by (simp add: initial_def)
  have f: "email_row (initial\<lparr>email_row := Some ?off\<rparr>) = Some ?off \<and> \<not> is_configured ?off"
    by simp
  have g: "email_row (initial\<lparr>email_row := Some ?bare\<rparr>) = Some ?bare \<and> is_configured ?bare
      \<and> (sender_email ?bare = [] \<or> app_password ?bare = [] \<or> recipient_emails ?bare = [])"
    by simp
  have h: "email_row ?s = Some ?cfg \<and> is_configured ?cfg \<and> sender_email ?cfg \<noteq> []
      \<and> app_password ?cfg \<noteq> [] \<and> recipient_emails ?cfg \<noteq> []
      \<and> smtp ?s = Some (Login, SMTPAuthenticationError)"
    by simp
  have 1: "send_alarm_email 30 initial = (Inr NoConfiguration, initial)"
    by (rule C9_send_alarm_email_never_raises [THEN conjunct2, THEN conjunct2, THEN conjunct2,
          THEN conjunct2, THEN conjunct2, THEN conjunct1, THEN mp, OF n])
  have 2: "send_alarm_email 30 (initial\<lparr>email_row := Some ?off\<rparr>)
      = (Inr NotConfigured, initial\<lparr>email_row := Some ?off\<rparr>)"
    by (rule C9_send_alarm_email_never_raises [THEN conjunct2, THEN conjunct2, THEN conjunct2,
          THEN conjunct2, THEN conjunct2, THEN conjunct2, THEN conjunct1, THEN mp, OF f])
  have 3: "send_alarm_email 30 (initial\<lparr>email_row := Some ?bare\<rparr>)
      = (Inr Incomplete, initial\<lparr>email_row := Some ?bare\<rparr>)"
    by (rule C9_send_alarm_email_never_raises [THEN conjunct2, THEN conjunct2, THEN conjunct2,
          THEN conjunct2, THEN conjunct2, THEN conjunct2, THEN conjunct2, THEN conjunct1,
          THEN mp, OF g])
  have 4: "fst (send_alarm_email_try 30 ?s) = Inl SMTPAuthenticationError
      \<and> fst (send_alarm_email 30 ?s) =
          Inr (case SMTPAuthenticationError of SMTPAuthenticationError \<Rightarrow> AuthenticationFailed
               | SMTPException \<Rightarrow> SmtpFailed | OtherException \<Rightarrow> UnexpectedFailure)"
    by (rule C9_send_alarm_email_never_raises [THEN conjunct2, THEN conjunct2, THEN conjunct2,
          THEN conjunct2, THEN conjunct2, THEN conjunct2, THEN conjunct2, THEN conjunct2,
          THEN mp, OF h])
  show ?thesis unfolding 1 2 3 using 4 by simp
qed

text \<open>
  C6, as the code has it. On a closing edge \<^verbatim>\<open>monitor_door\<close> of
  \<^verbatim>\<open>app_with_html_errors.py\<close> clears \<^verbatim>\<open>last_logged_alarm_state\<close>.
  \<^verbatim>\<open>last_logged_door_state\<close> is not reset: it becomes \<open>False\<close> when the \<open>door_close\<close>
  event is stored and keeps its value when that event is dropped, so once known it stays
  known.
\<close>

theorem C6_close_clears_the_alarm_flag:
  assumes "\<not> testing s" and "door_open s"
  shows "\<not> last_logged_alarm_state (snd (monitor_door_iteration AppWithHtmlErrors now (Some False) s))
    \<and> last_logged_door_state (snd (monitor_door_iteration AppWithHtmlErrors now (Some False) s)) =
        (if length (event_log (snd (monitor_door_iteration AppWithHtmlErrors now (Some False) s)))
              = length (event_log s)
         then last_logged_door_state s else Some False)
    \<and> (last_logged_door_state s \<noteq> None \<longrightarrow>
        last_logged_door_state (snd (monitor_door_iteration AppWithHtmlErrors now (Some False) s))
          \<noteq> None)"
  using assms
  by (auto simp: monitor_door_iteration_def Let_def log_event_flags log_event_length)

text \<open>Witness for C6: the door closes ten seconds into an alarm.\<close>

theorem C6_close_clears_the_alarm_flag_witness:
  "\<not> last_logged_alarm_state (snd (monitor_door_iteration AppWithHtmlErrors 10 (Some False) ajar))
   \<and> last_logged_door_state (snd (monitor_door_iteration AppWithHtmlErrors 10 (Some False) ajar))
       = Some False
   \<and> last_logged_door_state (snd (monitor_door_iteration AppWithHtmlErrors 10 (Some False) ajar))
       \<noteq> None"
proof -
  have a: "\<not> testing ajar" and b: "door_open ajar" by (simp_all add: ajar_def initial_def)
  have k: "last_logged_door_state ajar \<noteq> None" by (simp add: ajar_def)
  have n: "length (event_log (snd (monitor_door_iteration AppWithHtmlErrors 10 (Some False) ajar)))
      \<noteq> length (event_log ajar)"
    by (simp add: evaluate ajar_def)
  have 3: "last_logged_door_state (snd (monitor_door_iteration AppWithHtmlErrors 10 (Some False) ajar))
       \<noteq> None"
    by (rule C6_close_clears_the_alarm_flag [OF a b, THEN conjunct2, THEN conjunct2, THEN mp, OF k])
  show ?thesis using C6_close_clears_the_alarm_flag [OF a b, of 10] n 3 by simp
qed

text \<open>
  C6 as stated fails: after an opening at 0 and a closing at 10 the door is closed and
  \<^verbatim>\<open>last_logged_door_state\<close> is \<open>False\<close>, not \<open>None\<close>.
\<close>

theorem C6_door_state_is_closed_not_unknown:
  "last_logged_door_state (snd (monitor_door AppWithHtmlErrors
      [(0, Some True), (10, Some False)] initial)) = Some False
   \<and> door_open (snd (monitor_door AppWithHtmlErrors [(0, Some True)] initial))
   \<and> \<not> door_open (snd (monitor_door AppWithHtmlErrors
      [(0, Some True), (10, Some False)] initial))"
  by (simp add: monitor_door_iteration_def int_of_str_30 initial_def Let_def
      log_event_def duplicate_prevention_def event_key_def log_event_app_def)






text \<open>
  What \<^verbatim>\<open>alarm_timer\<close> does from the end of its loop on. The statement after the loop
  decides alone: when \<^verbatim>\<open>timer_active\<close> and \<^verbatim>\<open>door_open\<close> both hold there,
  \<^verbatim>\<open>timer_active\<close> becomes false and \<^verbatim>\<open>alarm_active\<close> true, an \<open>alarm_triggered\<close>
  event is submitted (and stored, in \<^verbatim>\<open>app.py\<close>) and \<^verbatim>\<open>send_alarm_email\<close> is called;
  otherwise both flags become false and nothing is stored, broadcast or mailed. This holds
  however the loop was left. A loop left early reaches the second branch when only time
  passes between the failed check and the re-check. A loop is left as \<open>Elapsed\<close> only from
  the \<^verbatim>\<open>while\<close> condition, with \<^verbatim>\<open>timer_active\<close> true and the duration used up.
\<close>

theorem recheck_decides:
  assumes th: "timer_thread c = Some th"
  shows "(pc th = AtFinal k \<longrightarrow>
        shared (timer_step v c) = snd (alarm_timer_final v (clock c) (duration th) (shared c)))
   \<and> snd (alarm_timer_final v now d s) =
       (if timer_active s \<and> door_open s then
          snd (send_alarm_email d
            (submit v now ''alarm_triggered''
               (''Alarm triggered after '' @ str_int d @ '' seconds'')
               (if testing s then s\<lparr>timer_active := False, alarm_active := True\<rparr>
                else s\<lparr>timer_active := False, alarm_active := True, red_led := False,
                        white_led := True\<rparr>)))
        else if testing s then s\<lparr>timer_active := False, alarm_active := False\<rparr>
        else s\<lparr>timer_active := False, alarm_active := False, red_led := False,
                white_led := False\<rparr>)
   \<and> \<not> timer_active (snd (alarm_timer_final v now d s))
   \<and> alarm_active (snd (alarm_timer_final v now d s)) = (timer_active s \<and> door_open s)
   \<and> (timer_active s \<and> door_open s \<longrightarrow>
        event_log (snd (alarm_timer_final App now d s)) =
          event_log s @ [\<lparr>ev_id = next_id (event_log s), ev_type = ''alarm_triggered'',
             ev_description = ''Alarm triggered after '' @ str_int d @ '' seconds'',
             ev_timestamp = now\<rparr>])
   \<and> (\<not> (timer_active s \<and> door_open s) \<longrightarrow>
        event_log (snd (alarm_timer_final v now d s)) = event_log s
        \<and> emitted (snd (alarm_timer_final v now d s)) = emitted s
        \<and> outbox (snd (alarm_timer_final v now d s)) = outbox s)
   \<and> ((pc th = AtWhile \<or> pc th = AtCheck1 \<or> pc th = AtCheck2)
        \<and> map_option pc (timer_thread (timer_step v c)) = Some (AtFinal Early) \<longrightarrow>
        shared (timer_step v (run v (map Tick ds) (timer_step v c))) =
          (if testing (shared c) then (shared c)\<lparr>timer_active := False, alarm_active := False\<rparr>
           else (shared c)\<lparr>timer_active := False, alarm_active := False, red_led := False,
                  white_led := False\<rparr>))
   \<and> (pc th \<noteq> AtFinal Elapsed
        \<and> map_option pc (timer_thread (timer_step v c)) = Some (AtFinal Elapsed) \<longrightarrow>
        pc th = AtWhile \<and> timer_active (shared c)
        \<and> of_int (duration th) \<le> clock c - start_time th)"
proof -
  have a: "pc th = AtFinal k \<longrightarrow>
        shared (timer_step v c) = snd (alarm_timer_final v (clock c) (duration th) (shared c))"
    using th by (simp add: timer_step_final)
  have g: "(pc th = AtWhile \<or> pc th = AtCheck1 \<or> pc th = AtCheck2)
        \<and> map_option pc (timer_thread (timer_step v c)) = Some (AtFinal Early) \<longrightarrow>
        shared (timer_step v (run v (map Tick ds) (timer_step v c))) =
          (if testing (shared c) then (shared c)\<lparr>timer_active := False, alarm_active := False\<rparr>
           else (shared c)\<lparr>timer_active := False, alarm_active := False, red_led := False,
                  white_led := False\<rparr>)"
    using early_exit_aborts [OF th] by blast
  have h: "pc th \<noteq> AtFinal Elapsed
        \<and> map_option pc (timer_thread (timer_step v c)) = Some (AtFinal Elapsed) \<longrightarrow>
        pc th = AtWhile \<and> timer_active (shared c)
        \<and> of_int (duration th) \<le> clock c - start_time th"
    using elapsed_exit [OF th] by blast
  have e: "timer_active s \<and> door_open s \<longrightarrow>
        event_log (snd (alarm_timer_final App now d s)) =
          event_log s @ [\<lparr>ev_id = next_id (event_log s), ev_type = ''alarm_triggered'',
             ev_description = ''Alarm triggered after '' @ str_int d @ '' seconds'',
             ev_timestamp = now\<rparr>]"
    using final_log_app by blast
  have f: "\<not> (timer_active s \<and> door_open s) \<longrightarrow>
        event_log (snd (alarm_timer_final v now d s)) = event_log s
        \<and> emitted (snd (alarm_timer_final v now d s)) = emitted s
        \<and> outbox (snd (alarm_timer_final v now d s)) = outbox s"
    using final_log_kept by blast
  show ?thesis
    by (intro conjI a final_snd final_flags e f g h)
qed

text \<open>
  Two runs: a countdown of one second that expires with the door open, and a countdown of
  thirty seconds whose door closes after a tenth of a second.
\<close>

theorem recheck_decides_example:
  "alarm_active (shared (timer_step App (run App expiry (boot quick))))
   \<and> map ev_type (event_log (snd (alarm_timer_final App 1 1 (shared (run App expiry (boot quick))))))
       = [''door_open'', ''alarm_triggered'']
   \<and> \<not> alarm_active (shared (timer_step App (run App (map Tick [1/4])
         (timer_step App (run App closing (boot initial))))))
   \<and> map ev_type (event_log (shared (timer_step App (run App (map Tick [1/4])
         (timer_step App (run App closing (boot initial)))))))
       = [''door_open'', ''door_close'']"
proof -
  let ?c = "run App expiry (boot quick)"
  let ?th = "\<lparr>pc = AtFinal Elapsed, start_time = 0, duration = 1\<rparr>"
  have th: "timer_thread ?c = Some ?th" by (simp add: expiry_reaches)
  have at: "pc ?th = AtFinal Elapsed" by simp
  have open_still: "timer_active (shared ?c) \<and> door_open (shared ?c)"
    by (simp add: expiry_reaches)
  note T = recheck_decides [OF th, where v = App and now = 1 and d = 1 and s = "shared ?c" and k = Elapsed]
  have 1: "shared (timer_step App ?c) = snd (alarm_timer_final App (clock ?c) (duration ?th) (shared ?c))"
    by (rule T [THEN conjunct1, THEN mp, OF at])
  have 2: "alarm_active (snd (alarm_timer_final App 1 1 (shared ?c)))
      = (timer_active (shared ?c) \<and> door_open (shared ?c))"
    by (rule T [THEN conjunct2, THEN conjunct2, THEN conjunct2, THEN conjunct1])
  have 3: "event_log (snd (alarm_timer_final App 1 1 (shared ?c))) =
          event_log (shared ?c) @ [\<lparr>ev_id = next_id (event_log (shared ?c)),
             ev_type = ''alarm_triggered'',
             ev_description = ''Alarm triggered after '' @ str_int 1 @ '' seconds'',
             ev_timestamp = 1\<rparr>]"
    by (rule T [THEN conjunct2, THEN conjunct2, THEN conjunct2, THEN conjunct2, THEN conjunct1,
          THEN mp, OF open_still])
  have ck: "clock ?c = 1" "duration ?th = 1" by (simp_all add: expiry_reaches)
  have a: "alarm_active (shared (timer_step App ?c))"
    unfolding 1 ck 2 by (rule open_still)
  have b: "map ev_type (event_log (snd (alarm_timer_final App 1 1 (shared ?c))))
       = [''door_open'', ''alarm_triggered'']"
    by (subst 3, simp only: expiry_reaches) (simp add: quick_def initial_def)
  let ?d = "run App closing (boot initial)"
  let ?th' = "\<lparr>pc = AtCheck2, start_time = 0, duration = 30\<rparr>"
  have th': "timer_thread ?d = Some ?th'" by (simp add: closing_reaches)
  have early: "(pc ?th' = AtWhile \<or> pc ?th' = AtCheck1 \<or> pc ?th' = AtCheck2)
        \<and> map_option pc (timer_thread (timer_step App ?d)) = Some (AtFinal Early)"
    using closing_reaches by (simp add: timer_step_def goto_def Let_def)
  have 4: "shared (timer_step App (run App (map Tick [1/4]) (timer_step App ?d))) =
          (if testing (shared ?d) then (shared ?d)\<lparr>timer_active := False, alarm_active := False\<rparr>
           else (shared ?d)\<lparr>timer_active := False, alarm_active := False, red_led := False,
                  white_led := False\<rparr>)"
    by (rule recheck_decides [OF th', THEN conjunct2, THEN conjunct2, THEN conjunct2, THEN conjunct2,
          THEN conjunct2, THEN conjunct2, THEN conjunct1, THEN mp, OF early])
  have c: "\<not> alarm_active (shared (timer_step App (run App (map Tick [1/4]) (timer_step App ?d))))"
    unfolding 4 by simp
  have d: "map ev_type (event_log (shared (timer_step App (run App (map Tick [1/4])
         (timer_step App ?d))))) = [''door_open'', ''door_close'']"
    unfolding 4 using closing_reaches by simp
  show ?thesis using a b c d by blast
qed

text \<open>
  C1 does not hold of the code. The door opens at 0 for a countdown of thirty seconds and
  closes at 0.1 during the first sleep of the timer; at 0.5 the second check finds it
  closed and leaves the loop; the monitor then sees the door open again and sets
  \<^verbatim>\<open>door_open\<close> and \<^verbatim>\<open>timer_active\<close> before the timer reaches the statement after the
  loop. The timer, whose loop exited early, raises the alarm half a second after the first
  opening and submits \<open>alarm_triggered\<close>, in both files; the comment on that branch reads
  "Timer elapsed and door is still open".
\<close>

theorem C1_alarm_after_early_exit:
  "timer_thread (run AppWithHtmlErrors reopen_race (boot initial))
     = Some \<lparr>pc = AtFinal Early, start_time = 0, duration = 30\<rparr>
   \<and> clock (run AppWithHtmlErrors reopen_race (boot initial)) = 1 / 2
   \<and> alarm_active (shared (exec AppWithHtmlErrors Timer
        (run AppWithHtmlErrors reopen_race (boot initial))))
   \<and> map ev_type (event_log (shared (exec AppWithHtmlErrors Timer
        (run AppWithHtmlErrors reopen_race (boot initial)))))
      = [''door_open'', ''door_close'', ''alarm_triggered'']
   \<and> timer_thread (run App reopen_race (boot initial))
     = Some \<lparr>pc = AtFinal Early, start_time = 0, duration = 30\<rparr>
   \<and> clock (run App reopen_race (boot initial)) = 1 / 2
   \<and> alarm_active (shared (exec App Timer (run App reopen_race (boot initial))))
   \<and> map ev_type (event_log (shared (exec App Timer (run App reopen_race (boot initial)))))
      = [''door_open'', ''door_close'', ''door_open'', ''alarm_triggered'']"
  by (simp add: evaluate reopen_race_def)

section \<open>Facts about threads inside the event pipeline\<close>

lemma step_blocked:
  "c_pc (callers p i) = BeforeLock \<Longrightarrow> lock_holder p = Some j \<Longrightarrow> caller_step i p = p"
  by (simp add: caller_step_def Let_def)

lemma step_acquire:
  "c_pc (callers p i) = BeforeLock \<Longrightarrow> lock_holder p = None \<Longrightarrow>
   caller_step i p =
     p\<lparr>lock_holder := Some i,
       callers := (callers p)(i := (callers p i)\<lparr>c_pc := InLock (p_clock p)\<rparr>)\<rparr>"
  by (simp add: caller_step_def Let_def)

lemma step_dropped:
  "c_pc (callers p i) = InLock t \<Longrightarrow>
   duplicate_prevention t (c_type (callers p i)) (c_description (callers p i)) (store p) = None \<Longrightarrow>
   caller_step i p =
     p\<lparr>lock_holder := None, callers := (callers p)(i := (callers p i)\<lparr>c_pc := Dropped\<rparr>)\<rparr>"
  by (simp add: caller_step_def Let_def)

lemma step_passed:
  "c_pc (callers p i) = InLock t \<Longrightarrow>
   duplicate_prevention t (c_type (callers p i)) (c_description (callers p i)) (store p) = Some s' \<Longrightarrow>
   caller_step i p =
     p\<lparr>lock_holder := None, store := s',
       callers := (callers p)(i := (callers p i)\<lparr>c_pc := BeforeInsert t, passed := Some t\<rparr>)\<rparr>"
  by (simp add: caller_step_def Let_def)

lemma step_insert:
  "c_pc (callers p i) = BeforeInsert t \<Longrightarrow>
   caller_step i p =
     p\<lparr>store := snd (insert_row (p_clock p) (c_type (callers p i)) (c_description (callers p i)) (store p)),
       callers := (callers p)(i := (callers p i)\<lparr>c_pc := BeforeCount
          (fst (insert_row (p_clock p) (c_type (callers p i)) (c_description (callers p i)) (store p)))\<rparr>)\<rparr>"
  by (simp add: caller_step_def Let_def split: prod.splits)

lemma step_count:
  "c_pc (callers p i) = BeforeCount e \<Longrightarrow>
   caller_step i p =
     p\<lparr>callers := (callers p)(i := (callers p i)\<lparr>c_pc := BeforeEmit (build_payload e (store p))\<rparr>)\<rparr>"
  by (simp add: caller_step_def Let_def)

lemma step_emit:
  "c_pc (callers p i) = BeforeEmit pl \<Longrightarrow>
   caller_step i p =
     p\<lparr>store := (store p)\<lparr>emitted := emitted (store p) @ [pl]\<rparr>,
       callers := (callers p)(i := (callers p i)\<lparr>c_pc := Done\<rparr>)\<rparr>"
  by (simp add: caller_step_def Let_def)

lemma step_returned:
  "c_pc (callers p i) = Dropped \<or> c_pc (callers p i) = Done \<Longrightarrow> caller_step i p = p"
  by (auto simp: caller_step_def Let_def)

lemma caller_step_cases [case_names blocked acquire dropped passed insert count emit]:
  obtains "caller_step i p = p"
  | "c_pc (callers p i) = BeforeLock" "lock_holder p = None"
      "caller_step i p =
         p\<lparr>lock_holder := Some i,
           callers := (callers p)(i := (callers p i)\<lparr>c_pc := InLock (p_clock p)\<rparr>)\<rparr>"
  | t where "c_pc (callers p i) = InLock t"
      "duplicate_prevention t (c_type (callers p i)) (c_description (callers p i)) (store p) = None"
      "caller_step i p =
         p\<lparr>lock_holder := None, callers := (callers p)(i := (callers p i)\<lparr>c_pc := Dropped\<rparr>)\<rparr>"
  | t s' where "c_pc (callers p i) = InLock t"
      "duplicate_prevention t (c_type (callers p i)) (c_description (callers p i)) (store p) = Some s'"
      "caller_step i p =
         p\<lparr>lock_holder := None, store := s',
           callers := (callers p)(i := (callers p i)\<lparr>c_pc := BeforeInsert t, passed := Some t\<rparr>)\<rparr>"
  | t where "c_pc (callers p i) = BeforeInsert t"
      "caller_step i p =
         p\<lparr>store := snd (insert_row (p_clock p) (c_type (callers p i)) (c_description (callers p i)) (store p)),
           callers := (callers p)(i := (callers p i)\<lparr>c_pc := BeforeCount
              (fst (insert_row (p_clock p) (c_type (callers p i)) (c_description (callers p i)) (store p)))\<rparr>)\<rparr>"
  | e where "c_pc (callers p i) = BeforeCount e"
      "caller_step i p =
         p\<lparr>callers := (callers p)(i := (callers p i)\<lparr>c_pc := BeforeEmit (build_payload e (store p))\<rparr>)\<rparr>"
  | pl where "c_pc (callers p i) = BeforeEmit pl"
      "caller_step i p =
         p\<lparr>store := (store p)\<lparr>emitted := emitted (store p) @ [pl]\<rparr>,
           callers := (callers p)(i := (callers p i)\<lparr>c_pc := Done\<rparr>)\<rparr>"
proof (cases "c_pc (callers p i)")
  case BeforeLock
  then show ?thesis
    using that(1,2) step_blocked [of p i] step_acquire [of p i]
    by (cases "lock_holder p") auto
next
  case (InLock t)
  then show ?thesis
    using that(3,4) step_dropped [of p i t] step_passed [of p i t]
    by (cases "duplicate_prevention t (c_type (callers p i)) (c_description (callers p i)) (store p)") auto
next
  case (BeforeInsert t)
  then show ?thesis using that(5) step_insert [of p i t] by blast
next
  case (BeforeCount e)
  then show ?thesis using that(6) step_count [of p i e] by blast
next
  case (BeforeEmit pl)
  then show ?thesis using that(7) step_emit [of p i pl] by blast
next
  case Dropped
  then show ?thesis using that(1) step_returned [of p i] by blast
next
  case Done
  then show ?thesis using that(1) step_returned [of p i] by blast
qed

lemma in_lock_iff: "in_lock th = (\<exists>t. c_pc th = InLock t)"
  by (cases "c_pc th") (simp_all add: in_lock_def)

lemma lock_consistentD:
  "lock_consistent p \<Longrightarrow> in_lock (callers p j) = (lock_holder p = Some j)"
  by (simp add: lock_consistent_def)

lemma in_lock_update [simp]:
  "in_lock (th\<lparr>c_pc := InLock t\<rparr>)"
  "\<not> in_lock (th\<lparr>c_pc := Dropped\<rparr>)"
  "\<not> in_lock (th\<lparr>c_pc := BeforeInsert t, passed := x\<rparr>)"
  "\<not> in_lock (th\<lparr>c_pc := BeforeCount e\<rparr>)"
  "\<not> in_lock (th\<lparr>c_pc := BeforeEmit pl\<rparr>)"
  "\<not> in_lock (th\<lparr>c_pc := Done\<rparr>)"
  by (simp_all add: in_lock_def)

lemma caller_step_lock:
  assumes inv: "lock_consistent p"
  shows "lock_consistent (caller_step i p)"
proof -
  note D = lock_consistentD [OF inv]
  have other: "\<not> in_lock (callers p j)" if "lock_holder p = Some i" "j \<noteq> i" for j
    using that by (simp add: D)
  have free: "\<not> in_lock (callers p j)" if "lock_holder p = None" for j
    using that by (simp add: D)
  have mine: "lock_holder p = Some i" if "c_pc (callers p i) = InLock t" for t
    using that D [of i] by (simp add: in_lock_iff)
  have not_mine: "lock_holder p \<noteq> Some i" if "\<not> in_lock (callers p i)"
    using that D [of i] by simp
  show ?thesis
  proof (cases rule: caller_step_cases [of i p])
    case blocked
    then show ?thesis using inv by simp
  next
    case acquire
    show ?thesis unfolding acquire(3) lock_consistent_def
      using free [OF acquire(2)] by simp
  next
    case (dropped t)
    show ?thesis unfolding dropped(3) lock_consistent_def
      using other [OF mine [OF dropped(1)]] by simp
  next
    case (passed t s')
    show ?thesis unfolding passed(3) lock_consistent_def
      using other [OF mine [OF passed(1)]] by simp
  next
    case (insert t)
    then have "\<not> in_lock (callers p i)" by (simp add: in_lock_iff)
    then show ?thesis unfolding insert(2) lock_consistent_def
      using D not_mine by simp
  next
    case (count e)
    then have "\<not> in_lock (callers p i)" by (simp add: in_lock_iff)
    then show ?thesis unfolding count(2) lock_consistent_def
      using D not_mine by simp
  next
    case (emit pl)
    then have "\<not> in_lock (callers p i)" by (simp add: in_lock_iff)
    then show ?thesis unfolding emit(2) lock_consistent_def
      using D not_mine by simp
  qed
qed

lemma stamps_consistentD1:
  "stamps_consistent p \<Longrightarrow> passed (callers p i) = Some t \<Longrightarrow>
   \<exists>t'. last_event_timestamps (store p) (key_of (callers p i)) = Some t' \<and> t \<le> t'"
  by (simp add: stamps_consistent_def)

lemma stamps_consistentD2:
  "stamps_consistent p \<Longrightarrow> i \<noteq> j \<Longrightarrow> key_of (callers p i) = key_of (callers p j) \<Longrightarrow>
   passed (callers p i) = Some ti \<Longrightarrow> passed (callers p j) = Some tj \<Longrightarrow> 2 \<le> \<bar>ti - tj\<bar>"
  unfolding stamps_consistent_def by blast

lemma key_of_update [simp]:
  "key_of (th\<lparr>c_pc := x\<rparr>) = key_of th"
  "key_of (th\<lparr>c_pc := x, passed := y\<rparr>) = key_of th"
  by (simp_all add: key_of_def)

lemma accepted_window:
  "duplicate_prevention t ty d s = Some s' \<Longrightarrow>
   last_event_timestamps s (event_key ty d) = Some t0 \<Longrightarrow> t0 + 2 \<le> t"
  by (auto simp: duplicate_prevention_def Let_def split: if_splits)

lemma insert_row_stamps [simp]:
  "last_event_timestamps (snd (insert_row now ty d s)) = last_event_timestamps s"
  by (simp add: insert_row_def Let_def)

lemma stamps_same:
  assumes inv: "stamps_consistent p"
    and st: "last_event_timestamps (store q) = last_event_timestamps (store p)"
    and ps: "\<And>j. passed (callers q j) = passed (callers p j)"
    and ks: "\<And>j. key_of (callers q j) = key_of (callers p j)"
  shows "stamps_consistent q"
  using inv unfolding stamps_consistent_def st ps ks .

lemma caller_step_stamps:
  assumes inv: "stamps_consistent p"
  shows "stamps_consistent (caller_step i p)"
proof (cases rule: caller_step_cases [of i p])
  case blocked
  then show ?thesis using inv by simp
next
  case acquire
  show ?thesis by (rule stamps_same [OF inv]) (simp_all add: acquire(3))
next
  case (dropped t)
  show ?thesis by (rule stamps_same [OF inv]) (simp_all add: dropped(3))
next
  case (insert t)
  show ?thesis by (rule stamps_same [OF inv]) (simp_all add: insert(2))
next
  case (count e)
  show ?thesis by (rule stamps_same [OF inv]) (simp_all add: count(2))
next
  case (emit pl)
  show ?thesis by (rule stamps_same [OF inv]) (simp_all add: emit(2))
next
  case (passed t s')
  let ?k = "key_of (callers p i)"
  have st: "last_event_timestamps s' = (last_event_timestamps (store p))(?k \<mapsto> t)"
    using accepted_stamps [OF passed(2)] by (simp add: key_of_def)
  have older: "tj + 2 \<le> t"
    if pj: "passed (callers p j) = Some tj" and kj: "key_of (callers p j) = ?k" for j tj
  proof -
    obtain t' where t': "last_event_timestamps (store p) ?k = Some t'" "tj \<le> t'"
      using stamps_consistentD1 [OF inv pj] kj by auto
    have "t' + 2 \<le> t"
      using accepted_window [OF passed(2)] t'(1) by (simp add: key_of_def)
    then show ?thesis using t'(2) by simp
  qed
  have one: "\<exists>t'. last_event_timestamps s' (key_of (callers p j)) = Some t' \<and> tj \<le> t'"
    if ne: "j \<noteq> i" and pj: "passed (callers p j) = Some tj" for j tj
  proof (cases "key_of (callers p j) = ?k")
    case True
    then show ?thesis using older [OF pj True] by (simp add: st)
  next
    case False
    then show ?thesis
      using stamps_consistentD1 [OF inv pj] by (simp add: st)
  qed
  have two: "2 \<le> \<bar>tj - tk\<bar>"
    if "j \<noteq> k" "key_of (callers p j) = key_of (callers p k)"
      "passed (callers p j) = Some tj" "passed (callers p k) = Some tk" for j k tj tk
    using that by (rule stamps_consistentD2 [OF inv])
  show ?thesis
    unfolding stamps_consistent_def passed(3)
  proof (intro conjI allI impI)
    fix j tj
    assume "passed (callers (p\<lparr>lock_holder := None, store := s',
        callers := (callers p)(i := (callers p i)\<lparr>c_pc := BeforeInsert t, passed := Some t\<rparr>)\<rparr>) j) = Some tj"
    then show "\<exists>t'. last_event_timestamps (store (p\<lparr>lock_holder := None, store := s',
        callers := (callers p)(i := (callers p i)\<lparr>c_pc := BeforeInsert t, passed := Some t\<rparr>)\<rparr>))
          (key_of (callers (p\<lparr>lock_holder := None, store := s',
        callers := (callers p)(i := (callers p i)\<lparr>c_pc := BeforeInsert t, passed := Some t\<rparr>)\<rparr>) j)) = Some t' \<and> tj \<le> t'"
      using one [of j tj] by (cases "j = i") (simp_all add: st)
  next
    fix j k tj tk
    assume h: "j \<noteq> k \<and> key_of (callers (p\<lparr>lock_holder := None, store := s',
        callers := (callers p)(i := (callers p i)\<lparr>c_pc := BeforeInsert t, passed := Some t\<rparr>)\<rparr>) j)
        = key_of (callers (p\<lparr>lock_holder := None, store := s',
        callers := (callers p)(i := (callers p i)\<lparr>c_pc := BeforeInsert t, passed := Some t\<rparr>)\<rparr>) k)
      \<and> passed (callers (p\<lparr>lock_holder := None, store := s',
        callers := (callers p)(i := (callers p i)\<lparr>c_pc := BeforeInsert t, passed := Some t\<rparr>)\<rparr>) j) = Some tj
      \<and> passed (callers (p\<lparr>lock_holder := None, store := s',
        callers := (callers p)(i := (callers p i)\<lparr>c_pc := BeforeInsert t, passed := Some t\<rparr>)\<rparr>) k) = Some tk"
    consider "j = i" "k \<noteq> i" | "k = i" "j \<noteq> i" | "j \<noteq> i" "k \<noteq> i"
      using h by blast
    then show "2 \<le> \<bar>tj - tk\<bar>"
    proof cases
      case 1
      then have "passed (callers p k) = Some tk" "key_of (callers p k) = ?k" "tj = t"
        using h by auto
      then have "tk + 2 \<le> t" "tj = t" using older [of k tk] by simp_all
      then show ?thesis by simp
    next
      case 2
      then have "passed (callers p j) = Some tj" "key_of (callers p j) = ?k" "tk = t"
        using h by auto
      then have "tj + 2 \<le> t" "tk = t" using older [of j tj] by simp_all
      then show ?thesis by simp
    next
      case 3
      then have "j \<noteq> k" "key_of (callers p j) = key_of (callers p k)"
        "passed (callers p j) = Some tj" "passed (callers p k) = Some tk"
        using h by auto
      then show ?thesis by (rule two)
    qed
  qed
qed

lemma after_lock_update [simp]:
  "\<not> after_lock (th\<lparr>c_pc := InLock t\<rparr>)"
  "\<not> after_lock (th\<lparr>c_pc := Dropped\<rparr>)"
  "after_lock (th\<lparr>c_pc := BeforeInsert t, passed := x\<rparr>)"
  "after_lock (th\<lparr>c_pc := BeforeCount e\<rparr>)"
  "after_lock (th\<lparr>c_pc := BeforeEmit pl\<rparr>)"
  "after_lock (th\<lparr>c_pc := Done\<rparr>)"
  by (simp_all add: after_lock_def)

lemma caller_step_recorded:
  assumes inv: "passed_recorded p"
  shows "passed_recorded (caller_step i p)"
proof -
  have D: "passed (callers p j) \<noteq> None" if "after_lock (callers p j)" for j
    using inv that by (simp add: passed_recorded_def)
  show ?thesis
  proof (cases rule: caller_step_cases [of i p])
    case blocked
    then show ?thesis using inv by simp
  next
    case acquire
    show ?thesis unfolding acquire(3) passed_recorded_def using D by simp
  next
    case (dropped t)
    show ?thesis unfolding dropped(3) passed_recorded_def using D by simp
  next
    case (passed t s')
    show ?thesis unfolding passed(3) passed_recorded_def using D by simp
  next
    case (insert t)
    then have "after_lock (callers p i)" by (simp add: after_lock_def)
    then show ?thesis unfolding insert(2) passed_recorded_def using D by simp
  next
    case (count e)
    then have "after_lock (callers p i)" by (simp add: after_lock_def)
    then show ?thesis unfolding count(2) passed_recorded_def using D by simp
  next
    case (emit pl)
    then have "after_lock (callers p i)" by (simp add: after_lock_def)
    then show ?thesis unfolding emit(2) passed_recorded_def using D by simp
  qed
qed

lemma caller_step_args:
  "c_type (callers (caller_step i p) j) = c_type (callers p j)
   \<and> c_description (callers (caller_step i p) j) = c_description (callers p j)"
  by (cases rule: caller_step_cases [of i p]) simp_all

lemma p_exec_ok: "pipeline_ok p \<Longrightarrow> pipeline_ok (p_exec a p)"
proof (cases a)
  case (Wait d)
  assume "pipeline_ok p"
  then show ?thesis
    by (simp add: Wait p_exec_def pipeline_ok_def lock_consistent_def stamps_consistent_def
        passed_recorded_def)
next
  case (Move i)
  assume "pipeline_ok p"
  then show ?thesis
    by (simp add: Move p_exec_def pipeline_ok_def caller_step_lock caller_step_stamps
        caller_step_recorded)
qed

lemma p_run_ok: "pipeline_ok p \<Longrightarrow> pipeline_ok (p_run sched p)"
  by (induction sched arbitrary: p) (simp_all add: p_exec_ok)

lemma p_run_args:
  "c_type (callers (p_run sched p) j) = c_type (callers p j)
   \<and> c_description (callers (p_run sched p) j) = c_description (callers p j)"
proof (induction sched arbitrary: p)
  case Nil
  then show ?case by simp
next
  case (Cons a sched)
  have "c_type (callers (p_exec a p) j) = c_type (callers p j)
   \<and> c_description (callers (p_exec a p) j) = c_description (callers p j)"
    by (cases a) (simp_all add: p_exec_def caller_step_args)
  then show ?case using Cons.IH [of "p_exec a p"] by simp
qed

lemma arrivals_ok: "pipeline_ok (arrivals args s t)"
  by (simp add: pipeline_ok_def lock_consistent_def stamps_consistent_def passed_recorded_def
      arrivals_def in_lock_def after_lock_def)

lemma log_event_app_phases:
  "log_event_app now ty d s =
     (snd (insert_row now ty d s))
       \<lparr>emitted := emitted s @ [build_payload (fst (insert_row now ty d s)) (snd (insert_row now ty d s))]\<rparr>"
  by (simp add: log_event_app_def insert_row_def build_payload_def Let_def)

lemma lone_caller:
  "store (p_run [Move i, Move i, Move i, Move i, Move i] (arrivals args s t))
     = log_event t (fst (args i)) (snd (args i)) s"
proof (cases "duplicate_prevention t (fst (args i)) (snd (args i)) s")
  case None
  then show ?thesis
    by (simp add: p_exec_def caller_step_def arrivals_def Let_def log_event_rejected)
next
  case (Some s')
  then show ?thesis
    by (simp add: p_exec_def caller_step_def arrivals_def Let_def log_event_accepted
        log_event_app_phases insert_row_def split: prod.splits)
qed

lemmas p_evaluate = p_exec_def caller_step_def arrivals_def two_callers_def overtaking_def
  duplicate_prevention_def event_key_def insert_row_def build_payload_def get_statistics_def
  count_type_def next_id_def initial_def Let_def in_sequence_def in_lock_def after_lock_def

section \<open>The claim about mutual exclusion\<close>

text \<open>
  C4, as the code has it. For callers of \<^verbatim>\<open>log_event\<close> of \<^verbatim>\<open>app_with_html_errors.py\<close>
  that start from any store and are scheduled in any way: at most one of them is inside
  the block under \<^verbatim>\<open>event_lock\<close> (the duplicate check and the writes to the flags and
  timestamps); two callers with the same type and description that both get through that
  block took clock readings at least two seconds apart; and only a caller that got through
  goes on to insert a row. The insert, the queries and the broadcast come after the lock
  is released.
\<close>

theorem C4_duplicate_check_is_exclusive:
  "(in_lock (callers (p_run sched (arrivals args s t)) i) \<and> i \<noteq> j \<longrightarrow>
      lock_holder (p_run sched (arrivals args s t)) = Some i
      \<and> \<not> in_lock (callers (p_run sched (arrivals args s t)) j))
 \<and> (i \<noteq> j \<and> args i = args j
      \<and> passed (callers (p_run sched (arrivals args s t)) i) = Some ti
      \<and> passed (callers (p_run sched (arrivals args s t)) j) = Some tj \<longrightarrow> 2 \<le> \<bar>ti - tj\<bar>)
 \<and> (after_lock (callers (p_run sched (arrivals args s t)) i) \<longrightarrow>
      passed (callers (p_run sched (arrivals args s t)) i) \<noteq> None)"
proof -
  let ?p = "p_run sched (arrivals args s t)"
  have ok: "pipeline_ok ?p" by (rule p_run_ok [OF arrivals_ok])
  have key: "key_of (callers ?p k) = event_key (fst (args k)) (snd (args k))" for k
    using p_run_args [of sched "arrivals args s t" k] by (simp add: key_of_def arrivals_def)
  have a: "in_lock (callers ?p i) \<and> i \<noteq> j \<longrightarrow>
      lock_holder ?p = Some i \<and> \<not> in_lock (callers ?p j)"
    using ok lock_consistentD [of ?p] by (auto simp: pipeline_ok_def)
  have b: "i \<noteq> j \<and> args i = args j \<and> passed (callers ?p i) = Some ti
      \<and> passed (callers ?p j) = Some tj \<longrightarrow> 2 \<le> \<bar>ti - tj\<bar>"
  proof
    assume h: "i \<noteq> j \<and> args i = args j \<and> passed (callers ?p i) = Some ti
      \<and> passed (callers ?p j) = Some tj"
    then have "key_of (callers ?p i) = key_of (callers ?p j)" by (simp add: key)
    then show "2 \<le> \<bar>ti - tj\<bar>"
      using ok h stamps_consistentD2 [of ?p i j ti tj] by (simp add: pipeline_ok_def)
  qed
  have c: "after_lock (callers ?p i) \<longrightarrow> passed (callers ?p i) \<noteq> None"
    using ok by (simp add: pipeline_ok_def passed_recorded_def)
  show ?thesis using a b c by blast
qed

text \<open>
  Witness for C4: two \<open>setting_changed\<close> callers, the second taking the lock two seconds
  after the first (both get through) and one second after it (dropped), and the second
  kept out while the first holds the lock.
\<close>

theorem C4_duplicate_check_is_exclusive_witness:
  "2 \<le> \<bar>(0 :: real) - 2\<bar>
   \<and> passed (callers (p_run [Move 0, Move 0, Wait 2, Move 1, Move 1, Move 1]
        (arrivals (\<lambda>i. (''setting_changed'', ''Timer'')) initial 0)) 1) \<noteq> None
   \<and> c_pc (callers (p_run [Move 0, Move 0, Wait 1, Move 1, Move 1]
        (arrivals (\<lambda>i. (''setting_changed'', ''Timer'')) initial 0)) 1) = Dropped
   \<and> \<not> in_lock (callers (p_run [Move 0, Move 1]
        (arrivals (\<lambda>i. (''setting_changed'', ''Timer'')) initial 0)) 1)"
proof -
  let ?args = "\<lambda>i :: nat. (''setting_changed'', ''Timer'')"
  let ?p = "p_run [Move 0, Move 0, Wait 2, Move 1, Move 1, Move 1] (arrivals ?args initial 0)"
  let ?q = "p_run [Move 0, Move 1] (arrivals ?args initial 0)"
  have h: "(0 :: nat) \<noteq> 1 \<and> ?args 0 = ?args 1 \<and> passed (callers ?p 0) = Some 0
      \<and> passed (callers ?p 1) = Some 2"
    by (simp add: p_evaluate)
  have 1: "2 \<le> \<bar>(0 :: real) - 2\<bar>"
    by (rule C4_duplicate_check_is_exclusive [THEN conjunct2, THEN conjunct1, THEN mp, OF h])
  have a: "after_lock (callers ?p 1)" by (simp add: p_evaluate)
  have 2: "passed (callers ?p 1) \<noteq> None"
    by (rule C4_duplicate_check_is_exclusive [THEN conjunct2, THEN conjunct2, THEN mp, OF a])
  have 3: "c_pc (callers (p_run [Move 0, Move 0, Wait 1, Move 1, Move 1]
        (arrivals ?args initial 0)) 1) = Dropped"
    by (simp add: p_evaluate)
  have l: "in_lock (callers ?q 0) \<and> (0 :: nat) \<noteq> 1" by (simp add: p_evaluate)
  have 4: "lock_holder ?q = Some 0 \<and> \<not> in_lock (callers ?q 1)"
    by (rule C4_duplicate_check_is_exclusive [THEN conjunct1, THEN mp, OF l])
  show ?thesis using 1 2 3 4 by blast
qed

text \<open>
  C4 as stated fails: the sequence from the duplicate check to the broadcast is not one
  exclusive section. With the \<open>door_open\<close> caller between the lock and its insert, the
  \<open>setting_changed\<close> caller takes the lock, so both are inside the sequence at once; it
  then inserts first, the rows are stored in the opposite order of the checks, and its
  broadcast counts the row the other caller inserted in between.
\<close>

theorem C4_callers_interleave_after_the_lock:
  "in_sequence (callers (p_run [Move 0, Move 0, Move 1] (arrivals two_callers initial 0)) 0)
   \<and> in_sequence (callers (p_run [Move 0, Move 0, Move 1] (arrivals two_callers initial 0)) 1)
   \<and> passed (callers (p_run [Move 0, Move 0, Move 1, Move 1] (arrivals two_callers initial 0)) 0) = Some 0
   \<and> map ev_type (event_log (store (p_run overtaking (arrivals two_callers initial 0))))
       = [''setting_changed'', ''door_open'']
   \<and> map (ev_type \<circ> p_event)
        (emitted (store (p_run overtaking (arrivals two_callers initial 0))))
       = [''setting_changed'', ''door_open'']
   \<and> map (total_events \<circ> p_statistics)
        (emitted (store (p_run overtaking (arrivals two_callers initial 0))))
       = [2, 2]"
  by (simp add: p_evaluate)

end
